theory Spec2Isabelle
  imports Main "HOL-Library.Word" "HOL-Library.Sublist"
begin

section \<open>JavaScript strings\<close>

text \<open>
  A JavaScript string is a sequence of UTF-16 code units; \<open>length\<close> counts code units.
  String literals of the script are written with \<open>js\<close> where they are ASCII, and with the
  code unit spelled out for the accented letters and the typographic quotes.
\<close>

type_synonym cu = "16 word"
type_synonym jsstring = "cu list"

definition js :: "string \<Rightarrow> jsstring" where
  "js s = map of_char s"

text \<open>
  \<open>String.prototype.trim\<close> removes WhiteSpace and LineTerminator code units from both
  ends: TAB, LF, VT, FF, CR, SP, NBSP, U+1680, U+2000..U+200A, U+2028, U+2029, U+202F,
  U+205F, U+3000 and U+FEFF.
\<close>

definition is_space :: "cu \<Rightarrow> bool" where
  "is_space c = (c = 0x09 \<or> c = 0x0A \<or> c = 0x0B \<or> c = 0x0C \<or> c = 0x0D \<or> c = 0x20
     \<or> c = 0xA0 \<or> c = 0x1680 \<or> (0x2000 \<le> c \<and> c \<le> 0x200A) \<or> c = 0x2028 \<or> c = 0x2029
     \<or> c = 0x202F \<or> c = 0x205F \<or> c = 0x3000 \<or> c = 0xFEFF)"

definition trim :: "jsstring \<Rightarrow> jsstring" where
  "trim s = rev (dropWhile is_space (rev (dropWhile is_space s)))"

text \<open>\<open>t.includes(w)\<close>: \<open>w\<close> occurs in \<open>t\<close> as a contiguous run of code units.\<close>

fun starts_with :: "jsstring \<Rightarrow> jsstring \<Rightarrow> bool" where
  "starts_with t [] = True"
| "starts_with [] (c # w) = False"
| "starts_with (d # t) (c # w) = (d = c \<and> starts_with t w)"

fun includes_js :: "jsstring \<Rightarrow> jsstring \<Rightarrow> bool" where
  "includes_js [] w = (w = [])"
| "includes_js (d # t) w = (starts_with (d # t) w \<or> includes_js t w)"

text \<open>
  \<open>toLowerCase\<close> of the runtime follows the Unicode case tables, which are no part of the
  repository: the functions below take it as the parameter \<open>lower\<close>. \<open>lower_latin1\<close>
  is what it computes on strings of code units below U+0100, where the letters with a lower
  case are A..Z, U+00C0..U+00D6 and U+00D8..U+00DE; it is used to evaluate examples.
\<close>

definition lower_cu :: "cu \<Rightarrow> cu" where
  "lower_cu c = (if (0x41 \<le> c \<and> c \<le> 0x5A) \<or> (0xC0 \<le> c \<and> c \<le> 0xD6) \<or> (0xD8 \<le> c \<and> c \<le> 0xDE)
     then c + 0x20 else c)"

definition lower_latin1 :: "jsstring \<Rightarrow> jsstring" where
  "lower_latin1 s = map lower_cu s"

section \<open>Regular expressions\<close>

text \<open>
  The fragment of the regular expression syntax that the script uses, under the flag \<open>i\<close>
  and without the flag \<open>u\<close>: a literal letter, the class \<open>\W\<close>, concatenation,
  alternation and the star. \<open>Fail\<close> matches nothing and \<open>Eps\<close> the empty string; they are
  what derivatives of the atoms are.

  Under \<open>i\<close> a pattern character and an input code unit match when their canonical forms
  (the upper case of a single code unit, where a code unit of U+0080 and above is never
  folded down to ASCII) agree. For an ASCII pattern letter that is agreement up to
  ASCII case. \<open>\W\<close> is the complement of \<open>[A-Za-z0-9_]\<close>.
\<close>

datatype rx = Fail | Eps | Lit cu | NotWord | Cat rx rx | Alt rx rx | Star rx

definition ascii_upper :: "cu \<Rightarrow> cu" where
  "ascii_upper c = (if 0x61 \<le> c \<and> c \<le> 0x7A then c - 0x20 else c)"

definition is_word :: "cu \<Rightarrow> bool" where
  "is_word c = ((0x41 \<le> c \<and> c \<le> 0x5A) \<or> (0x61 \<le> c \<and> c \<le> 0x7A) \<or> (0x30 \<le> c \<and> c \<le> 0x39) \<or> c = 0x5F)"

fun nullable :: "rx \<Rightarrow> bool" where
  "nullable Fail = False"
| "nullable Eps = True"
| "nullable (Lit c) = False"
| "nullable NotWord = False"
| "nullable (Cat r s) = (nullable r \<and> nullable s)"
| "nullable (Alt r s) = (nullable r \<or> nullable s)"
| "nullable (Star r) = True"

fun deriv :: "cu \<Rightarrow> rx \<Rightarrow> rx" where
  "deriv d Fail = Fail"
| "deriv d Eps = Fail"
| "deriv d (Lit c) = (if ascii_upper d = ascii_upper c then Eps else Fail)"
| "deriv d NotWord = (if is_word d then Fail else Eps)"
| "deriv d (Cat r s) =
     (if nullable r then Alt (Cat (deriv d r) s) (deriv d s) else Cat (deriv d r) s)"
| "deriv d (Alt r s) = Alt (deriv d r) (deriv d s)"
| "deriv d (Star r) = Cat (deriv d r) (Star r)"

text \<open>\<open>/^r$/.test(s)\<close>: the whole of \<open>s\<close> matches \<open>r\<close>.\<close>

fun rx_test :: "rx \<Rightarrow> jsstring \<Rightarrow> bool" where
  "rx_test r [] = nullable r"
| "rx_test r (d # s) = rx_test (deriv d r) s"

fun word_rx :: "jsstring \<Rightarrow> rx" where
  "word_rx [] = Eps"
| "word_rx (c # w) = Cat (Lit c) (word_rx w)"

section \<open>Classifier\<close>

definition normalizeText :: "jsstring option \<Rightarrow> jsstring" where
  "normalizeText s = trim (case s of None \<Rightarrow> [] | Some v \<Rightarrow> v)"

definition has :: "jsstring \<Rightarrow> jsstring list \<Rightarrow> bool" where
  "has t words = list_ex (\<lambda>w. includes_js t w) words"

definition inferAgentBucket :: "(jsstring \<Rightarrow> jsstring) \<Rightarrow> jsstring option \<Rightarrow> jsstring option \<Rightarrow> jsstring" where
  "inferAgentBucket lower title description =
     (let t = lower (normalizeText title @ [0x0A] @ normalizeText description) in
      if has t [js ''skool'', js ''comunidad'', js ''curso'', js ''miembros'', js ''post'',
                js ''contenido''] then js ''Skool''
      else if has t [js ''deploy'', js ''infra'', js ''servidor'', js ''gateway'', js ''cron'',
                js ''ssh'', js ''dns'', js ''docker'', js ''uptime'', js ''monitor''] then js ''Ops''
      else if has t [js ''bug'', js ''error'', js ''fix'', js ''api'', js ''next'', js ''frontend'',
                js ''backend'', js ''supabase'', js ''sql'', js ''typescript'', js ''codigo'',
                js ''c'' @ [0xF3] @ js ''digo''] then js ''Dev''
      else if has t [js ''investigar'', js ''research'', js ''benchmark'', js ''comparar'',
                js ''alternativa'', js ''documentaci'' @ [0xF3] @ js ''n'', js ''docs''] then js ''Research''
      else js ''Jarvis'')"

text \<open>The rows of a work item that the script reads.\<close>

datatype status = inbox | triage | in_progress | blocked | review | needs_nico | done_st | canceled

record task =
  task_id :: jsstring
  task_owner_id :: jsstring
  task_title :: "jsstring option"
  task_description :: "jsstring option"
  task_status :: status
  task_created_at :: nat

definition filler_rx :: rx where
  "filler_rx = Cat (Star NotWord)
     (Cat (Alt (word_rx (js ''idea'')) (Alt (word_rx (js ''ayuda'')) (Alt (word_rx (js ''pendiente''))
            (Alt (word_rx (js ''hacer'')) (Alt (word_rx (js ''tbd'')) (word_rx (js ''todo'')))))))
          (Star NotWord))"

definition needsNico :: "task \<Rightarrow> bool" where
  "needsNico task =
     (let title = normalizeText (task_title task);
          desc = normalizeText (task_description task);
          tooVague = (length title < 8 \<or> rx_test filler_rx title);
          noDesc = (length desc = 0)
      in tooVague \<and> noDesc)"

section \<open>Plan Builder\<close>

record step =
  step_title :: jsstring
  step_definition_of_done :: jsstring
  step_bucket :: jsstring

text \<open>The steps that \<open>buildSubtasks\<close> has pushed when it reaches its \<open>return\<close>.\<close>

definition pushed_steps :: "(jsstring \<Rightarrow> jsstring) \<Rightarrow> task \<Rightarrow> step list" where
  "pushed_steps lower task =
     (let bucket = inferAgentBucket lower (task_title task) (task_description task);
          subtasks = [];
          subtasks = subtasks @ [\<lparr>
            step_title = js ''Aclarar alcance y criterios'',
            step_definition_of_done =
              js ''Queda escrito en la tarea: objetivo, entradas necesarias, restricciones, y criterio de ''
              @ [0xE9] @ js ''xito verificable (qu'' @ [0xE9] @ js '' se considera '' @ [0x201C]
              @ js ''hecho'' @ [0x201D] @ js '').'',
            step_bucket = js ''Jarvis''\<rparr>];
          subtasks = (if bucket = js ''Research'' then subtasks @ [\<lparr>
            step_title = js ''Investigaci'' @ [0xF3] @ js ''n r'' @ [0xE1] @ js ''pida (3 fuentes)'',
            step_definition_of_done =
              js ''Entrega un resumen de 10-15 l'' @ [0xED] @ js ''neas + 3 links relevantes + recomendaci''
              @ [0xF3] @ js ''n clara (qu'' @ [0xE9] @ js '' hacer / qu'' @ [0xE9]
              @ js '' no hacer) con pros y contras.'',
            step_bucket = js ''Research''\<rparr>] else subtasks);
          subtasks = (if bucket = js ''Skool'' then subtasks @ [\<lparr>
            step_title = js ''Dise'' @ [0xF1] @ js ''ar pieza / acci'' @ [0xF3] @ js ''n para Skool'',
            step_definition_of_done =
              js ''Queda un borrador listo para publicar (texto final) + checklist de publicaci''
              @ [0xF3] @ js ''n (d'' @ [0xF3] @ js ''nde, cu'' @ [0xE1] @ js ''ndo, CTA).'',
            step_bucket = js ''Skool''\<rparr>] else subtasks);
          subtasks = (if bucket = js ''Dev'' then subtasks @ [\<lparr>
            step_title = js ''Implementaci'' @ [0xF3] @ js ''n t'' @ [0xE9] @ js ''cnica'',
            step_definition_of_done =
              js ''PR/commit listo o cambios aplicados: incluye qu'' @ [0xE9] @ js '' se cambi''
              @ [0xF3] @ js '', c'' @ [0xF3] @ js ''mo probarlo y evidencia (captura/log) de que pasa.'',
            step_bucket = js ''Dev''\<rparr>] else subtasks);
          subtasks = (if bucket = js ''Ops'' then subtasks @ [\<lparr>
            step_title = js ''Ejecuci'' @ [0xF3] @ js ''n/operaci'' @ [0xF3] @ js ''n'',
            step_definition_of_done =
              js ''Cambio aplicado en entorno correspondiente + verificaci'' @ [0xF3]
              @ js ''n (comando/screenshot/log) + rollback plan documentado.'',
            step_bucket = js ''Ops''\<rparr>] else subtasks);
          subtasks = subtasks @ [\<lparr>
            step_title = js ''Validaci'' @ [0xF3] @ js ''n final'',
            step_definition_of_done =
              js ''Checklist de verificaci'' @ [0xF3] @ js ''n completado y nota final en la tarea confirmando que el objetivo se cumpli''
              @ [0xF3] @ js ''.'',
            step_bucket = js ''Jarvis''\<rparr>]
      in subtasks)"

text \<open>\<open>return subtasks.slice(0, 7)\<close>: the cap at 7.\<close>

definition buildSubtasks :: "(jsstring \<Rightarrow> jsstring) \<Rightarrow> task \<Rightarrow> step list" where
  "buildSubtasks lower task = take 7 (pushed_steps lower task)"

section \<open>The store\<close>

text \<open>
  The script talks to a hosted relational store through a query builder. The tables are
  lists of rows in the order the store keeps them; every query of the script is modelled by
  its relational meaning: \<open>eq\<close> filters, \<open>order\<close> sorts (ascending), \<open>limit\<close> truncates,
  \<open>insert\<close> appends and \<open>update\<close> rewrites the rows its filters select. The columns are
  those the script reads or writes.
\<close>

record agent =
  agent_id :: jsstring
  agent_owner_id :: jsstring
  agent_name :: "jsstring option"
  agent_role :: "jsstring option"
  agent_is_active :: bool

record subtask =
  subtask_owner_id :: jsstring
  subtask_task_id :: jsstring
  subtask_title :: jsstring
  subtask_status :: status
  subtask_assignee_agent_id :: "jsstring option"
  subtask_definition_of_done :: jsstring
  subtask_sort_order :: nat
  subtask_metadata_triage_bucket :: jsstring

record comment =
  comment_owner_id :: jsstring
  comment_task_id :: jsstring
  comment_author_type :: jsstring
  comment_author_agent_id :: "jsstring option"
  comment_body :: jsstring

text \<open>The payloads of the activity entries: \<open>{created}\<close>, \<open>{kind}\<close> and \<open>{from, to}\<close>.\<close>

datatype activity_data = Created nat | Kind jsstring | FromTo status status

record activity =
  activity_owner_id :: jsstring
  activity_actor_type :: jsstring
  activity_actor_agent_id :: "jsstring option"
  activity_action :: jsstring
  activity_entity_type :: jsstring
  activity_entity_id :: jsstring
  activity_data :: activity_data

datatype error = StoreError (message: jsstring)

datatype console_arg = Str jsstring | Obj error

text \<open>
  The world of one run: the five tables, what the process has printed, its exit code, and
  \<open>faults\<close>, the outcome of the store calls to come: the next call fails with the
  error message \<open>m\<close> when the head is \<open>Some m\<close> and succeeds when it is \<open>None\<close> or
  when the list is used up. A call that fails leaves the tables as they are.
\<close>

record world =
  agents :: "agent list"
  tasks :: "task list"
  subtasks :: "subtask list"
  comments :: "comment list"
  activity_log :: "activity list"
  faults :: "jsstring option list"
  stdout :: "jsstring list"
  stderr :: "console_arg list list"
  exitCode :: nat

type_synonym 'a io = "world \<Rightarrow> (error + 'a) \<times> world"

definition return_io :: "'a \<Rightarrow> 'a io" where
  "return_io x w = (Inr x, w)"

text \<open>\<open>await\<close> and \<open>if (error) throw error\<close>: the rest runs only after a success.\<close>

definition bind_io :: "'a io \<Rightarrow> ('a \<Rightarrow> 'b io) \<Rightarrow> 'b io" where
  "bind_io m f w = (case m w of (Inl e, w') \<Rightarrow> (Inl e, w') | (Inr x, w') \<Rightarrow> f x w')"

definition next_fault :: "world \<Rightarrow> jsstring option \<times> world" where
  "next_fault w = (case faults w of [] \<Rightarrow> (None, w) | x # rest \<Rightarrow> (x, w\<lparr>faults := rest\<rparr>))"

definition store_call :: "(world \<Rightarrow> 'a \<times> world) \<Rightarrow> 'a io" where
  "store_call f w =
     (case next_fault w of
        (Some m, w1) \<Rightarrow> (Inl (StoreError m), w1)
      | (None, w1) \<Rightarrow> (Inr (fst (f w1)), snd (f w1)))"

definition active_agents :: "jsstring \<Rightarrow> agent list \<Rightarrow> agent list" where
  "active_agents ownerId rows = filter (\<lambda>a. agent_owner_id a = ownerId \<and> agent_is_active a) rows"

definition select_agents :: "jsstring \<Rightarrow> agent list io" where
  "select_agents ownerId = store_call (\<lambda>w. (active_agents ownerId (agents w), w))"

text \<open>
  \<open>from('tasks').select(...).eq('owner_id', OWNER_ID).eq('status', 'inbox')
  .order('created_at', {ascending: true}).limit(20)\<close>
\<close>

definition inbox_batch :: "jsstring \<Rightarrow> task list \<Rightarrow> task list" where
  "inbox_batch ownerId rows =
     take 20 (sort_key task_created_at
       (filter (\<lambda>t. task_owner_id t = ownerId \<and> task_status t = inbox) rows))"

definition select_inbox_tasks :: "jsstring \<Rightarrow> task list io" where
  "select_inbox_tasks ownerId = store_call (\<lambda>w. (inbox_batch ownerId (tasks w), w))"

text \<open>\<open>from('subtasks').select('id').eq('owner_id', OWNER_ID).eq('task_id', task.id).limit(1)\<close>\<close>

definition existing_subtasks :: "jsstring \<Rightarrow> jsstring \<Rightarrow> subtask list \<Rightarrow> subtask list" where
  "existing_subtasks ownerId taskId rows =
     take 1 (filter (\<lambda>s. subtask_owner_id s = ownerId \<and> subtask_task_id s = taskId) rows)"

definition select_subtasks :: "jsstring \<Rightarrow> jsstring \<Rightarrow> subtask list io" where
  "select_subtasks ownerId taskId =
     store_call (\<lambda>w. (existing_subtasks ownerId taskId (subtasks w), w))"

text \<open>\<open>from('subtasks').insert(rows).select('id')\<close>: the data returned has one entry for each row.\<close>

definition insert_subtasks :: "subtask list \<Rightarrow> subtask list io" where
  "insert_subtasks rows = store_call (\<lambda>w. (rows, w\<lparr>subtasks := subtasks w @ rows\<rparr>))"

definition insert_comment :: "comment \<Rightarrow> unit io" where
  "insert_comment c = store_call (\<lambda>w. ((), w\<lparr>comments := comments w @ [c]\<rparr>))"

text \<open>
  \<open>from('tasks').update({status: newStatus}).eq('owner_id', OWNER_ID).eq('id', task.id)
  .eq('status', 'inbox')\<close>
\<close>

definition move_from_inbox :: "jsstring \<Rightarrow> jsstring \<Rightarrow> status \<Rightarrow> task list \<Rightarrow> task list" where
  "move_from_inbox ownerId taskId newStatus rows =
     map (\<lambda>t. if task_owner_id t = ownerId \<and> task_id t = taskId \<and> task_status t = inbox
              then t\<lparr>task_status := newStatus\<rparr> else t) rows"

definition update_task_status :: "jsstring \<Rightarrow> jsstring \<Rightarrow> status \<Rightarrow> unit io" where
  "update_task_status ownerId taskId newStatus =
     store_call (\<lambda>w. ((), w\<lparr>tasks := move_from_inbox ownerId taskId newStatus (tasks w)\<rparr>))"

definition insertActivity :: "activity \<Rightarrow> unit io" where
  "insertActivity a = store_call (\<lambda>w. ((), w\<lparr>activity_log := activity_log w @ [a]\<rparr>))"

section \<open>Roster\<close>

text \<open>\<open>x || ''\<close> and \<open>x || null\<close> on strings: the empty string is falsy.\<close>

definition or_empty :: "jsstring option \<Rightarrow> jsstring" where
  "or_empty x = (case x of None \<Rightarrow> [] | Some v \<Rightarrow> v)"

definition truthy :: "jsstring \<Rightarrow> jsstring option" where
  "truthy v = (if v = [] then None else Some v)"

fun roster_set :: "(jsstring \<Rightarrow> jsstring) \<Rightarrow> (jsstring \<rightharpoonup> agent) \<Rightarrow> agent list \<Rightarrow> (jsstring \<rightharpoonup> agent)" where
  "roster_set lower m [] = m"
| "roster_set lower m (a # data) = roster_set lower (m(lower (or_empty (agent_name a)) \<mapsto> a)) data"

definition getAgentRoster :: "(jsstring \<Rightarrow> jsstring) \<Rightarrow> jsstring \<Rightarrow> (jsstring \<rightharpoonup> agent) io" where
  "getAgentRoster lower ownerId =
     bind_io (select_agents ownerId) (\<lambda>data. return_io (roster_set lower Map.empty data))"

text \<open>\<open>a?.id || jarvisId || null\<close>, with \<open>jarvisId\<close> already an identity or null.\<close>

definition pickId :: "(jsstring \<Rightarrow> jsstring) \<Rightarrow> (jsstring \<rightharpoonup> agent) \<Rightarrow> jsstring option \<Rightarrow> jsstring option \<Rightarrow> jsstring option" where
  "pickId lower roster jarvisId bucket =
     (let key = lower (or_empty bucket);
          a = roster key
      in case (case a of None \<Rightarrow> None | Some ag \<Rightarrow> truthy (agent_id ag)) of
           Some i \<Rightarrow> Some i
         | None \<Rightarrow> jarvisId)"

section \<open>Triage Coordinator\<close>

record processed =
  processed_id :: jsstring
  processed_subtasks_created :: nat
  processed_status :: status
  processed_skipped_existing :: bool

text \<open>\<open>plan.map((p, idx) => ...)\<close>: the rows of one batch insert.\<close>

definition plan_rows :: "(jsstring \<Rightarrow> jsstring) \<Rightarrow> jsstring \<Rightarrow> (jsstring \<rightharpoonup> agent) \<Rightarrow> jsstring option
    \<Rightarrow> task \<Rightarrow> step list \<Rightarrow> subtask list" where
  "plan_rows lower OWNER_ID roster jarvisId task plan =
     map (\<lambda>(idx, p). \<lparr>
        subtask_owner_id = OWNER_ID,
        subtask_task_id = task_id task,
        subtask_title = step_title p,
        subtask_status = in_progress,
        subtask_assignee_agent_id = pickId lower roster jarvisId (Some (step_bucket p)),
        subtask_definition_of_done = step_definition_of_done p,
        subtask_sort_order = idx,
        subtask_metadata_triage_bucket = step_bucket p\<rparr>) (enumerate 0 plan)"

fun join :: "jsstring \<Rightarrow> jsstring list \<Rightarrow> jsstring" where
  "join sep [] = []"
| "join sep [x] = x"
| "join sep (x # y # xs) = x @ sep @ join sep (y # xs)"

definition commentBody :: "task \<Rightarrow> bool \<Rightarrow> jsstring" where
  "commentBody task needs =
     (let resumen = (if normalizeText (task_description task) \<noteq> []
            then take 240 (normalizeText (task_description task))
            else js ''Sin descripci'' @ [0xF3] @ js ''n (se requiere aclarar).'');
          pasos = (if needs
            then [js ''Falta info cr'' @ [0xED] @ js ''tica: describe objetivo + entregable esperado + contexto (links/ejemplos).'']
            else [js ''Revisar subtasks y ejecutar en orden.'',
                  js ''Actualizar resultados en cada subtask.'',
                  js ''Cerrar con validaci'' @ [0xF3] @ js ''n final.''])
      in join [0x0A]
           ([js ''Resumen: '' @ resumen, [], js ''Pasos:''] @ map (\<lambda>p. js ''- '' @ p) pasos @
            [[], js ''Links:'', js ''- (vac'' @ [0xED] @ js ''o)'', [], js ''Riesgos:'',
             if needs then js ''- Bloqueo por falta de contexto.''
             else js ''- Estimaci'' @ [0xF3] @ js ''n puede cambiar al descubrir dependencias.'']))"

text \<open>
  The body of the loop of \<open>main\<close> for a task that passed the \<open>inbox\<close> check. \<open>task\<close> is
  the row as it was fetched; the world is the store as it is now.
\<close>

definition main_loop_body :: "(jsstring \<Rightarrow> jsstring) \<Rightarrow> jsstring \<Rightarrow> (jsstring \<rightharpoonup> agent) \<Rightarrow> jsstring option
    \<Rightarrow> task \<Rightarrow> processed io" where
  "main_loop_body lower OWNER_ID roster jarvisId task =
     bind_io (select_subtasks OWNER_ID (task_id task)) (\<lambda>existingSubs.
       let alreadyHas = (length existingSubs > 0);
           needs = needsNico task;
           newStatus = (if needs then needs_nico else triage)
       in
       bind_io
         (if \<not> alreadyHas \<and> \<not> needs then
            (let plan = buildSubtasks lower task;
                 rows = plan_rows lower OWNER_ID roster jarvisId task plan
             in bind_io (insert_subtasks rows) (\<lambda>insData.
                  let createdCount = (if length insData \<noteq> 0 then length insData else length rows) in
                  bind_io (insertActivity \<lparr>
                      activity_owner_id = OWNER_ID,
                      activity_actor_type = js ''agent'',
                      activity_actor_agent_id = jarvisId,
                      activity_action = js ''create_subtasks'',
                      activity_entity_type = js ''task'',
                      activity_entity_id = task_id task,
                      activity_data = Created createdCount\<rparr>)
                    (\<lambda>_. return_io createdCount)))
          else return_io 0)
         (\<lambda>createdCount.
            bind_io (insert_comment \<lparr>
                comment_owner_id = OWNER_ID,
                comment_task_id = task_id task,
                comment_author_type = js ''agent'',
                comment_author_agent_id = jarvisId,
                comment_body = commentBody task needs\<rparr>) (\<lambda>_.
            bind_io (insertActivity \<lparr>
                activity_owner_id = OWNER_ID,
                activity_actor_type = js ''agent'',
                activity_actor_agent_id = jarvisId,
                activity_action = js ''add_comment'',
                activity_entity_type = js ''task'',
                activity_entity_id = task_id task,
                activity_data = Kind (js ''triage_summary'')\<rparr>) (\<lambda>_.
            bind_io (update_task_status OWNER_ID (task_id task) newStatus) (\<lambda>_.
            bind_io (insertActivity \<lparr>
                activity_owner_id = OWNER_ID,
                activity_actor_type = js ''agent'',
                activity_actor_agent_id = jarvisId,
                activity_action = js ''move_status'',
                activity_entity_type = js ''task'',
                activity_entity_id = task_id task,
                activity_data = FromTo inbox newStatus\<rparr>) (\<lambda>_.
            return_io \<lparr>
                processed_id = task_id task,
                processed_subtasks_created = createdCount,
                processed_status = newStatus,
                processed_skipped_existing = alreadyHas\<rparr>))))))"

text \<open>\<open>for (const task of tasks || [])\<close>, with \<open>processed\<close> the outcomes pushed so far.\<close>

fun main_loop :: "(jsstring \<Rightarrow> jsstring) \<Rightarrow> jsstring \<Rightarrow> (jsstring \<rightharpoonup> agent) \<Rightarrow> jsstring option
    \<Rightarrow> task list \<Rightarrow> processed list \<Rightarrow> processed list io" where
  "main_loop lower OWNER_ID roster jarvisId [] processed = return_io processed"
| "main_loop lower OWNER_ID roster jarvisId (task # rest) processed =
     (if task_status task \<noteq> inbox then main_loop lower OWNER_ID roster jarvisId rest processed
      else bind_io (main_loop_body lower OWNER_ID roster jarvisId task) (\<lambda>p.
             main_loop lower OWNER_ID roster jarvisId rest (processed @ [p])))"

fun show_nat :: "nat \<Rightarrow> jsstring" where
  "show_nat n = (if n < 10 then [of_nat (48 + n)] else show_nat (n div 10) @ [of_nat (48 + n mod 10)])"

declare show_nat.simps [simp del]

fun status_name :: "status \<Rightarrow> jsstring" where
  "status_name inbox = js ''inbox''"
| "status_name triage = js ''triage''"
| "status_name in_progress = js ''in_progress''"
| "status_name blocked = js ''blocked''"
| "status_name review = js ''review''"
| "status_name needs_nico = js ''needs_nico''"
| "status_name done_st = js ''done''"
| "status_name canceled = js ''canceled''"

definition console_log :: "jsstring list \<Rightarrow> unit io" where
  "console_log ls w = (Inr (), w\<lparr>stdout := stdout w @ ls\<rparr>)"

definition summary_line :: "processed \<Rightarrow> jsstring" where
  "summary_line p =
     (let extra = (if processed_skipped_existing p then js '' (subtasks ya exist'' @ [0xED] @ js ''an)'' else [])
      in js ''- '' @ processed_id p @ js '': +'' @ show_nat (processed_subtasks_created p)
         @ js '' subtasks, status='' @ status_name (processed_status p) @ extra)"

definition main :: "(jsstring \<Rightarrow> jsstring) \<Rightarrow> jsstring \<Rightarrow> unit io" where
  "main lower OWNER_ID =
     bind_io (getAgentRoster lower OWNER_ID) (\<lambda>roster.
       let jarvisAgent = roster (js ''jarvis'');
           jarvisId = (case jarvisAgent of None \<Rightarrow> None | Some a \<Rightarrow> truthy (agent_id a))
       in
       bind_io (select_inbox_tasks OWNER_ID) (\<lambda>tasks.
       bind_io (main_loop lower OWNER_ID roster jarvisId tasks []) (\<lambda>processed.
         if length processed = 0
         then console_log [js ''Procesado: 0 tasks (no hab'' @ [0xED] @ js ''a tasks en inbox).'']
         else console_log ((js ''Procesado: '' @ show_nat (length processed) @ js '' tasks'')
                # map summary_line processed))))"

text \<open>
  \<open>main().catch(...)\<close>: one run of the script from a fresh process, on the tables and the
  faults of \<open>w\<close>. The configuration has been read (\<open>mustEnv\<close> has returned \<open>OWNER_ID\<close>).
  The process exits with \<open>exitCode\<close>.
\<close>

definition run :: "(jsstring \<Rightarrow> jsstring) \<Rightarrow> jsstring \<Rightarrow> world \<Rightarrow> world" where
  "run lower OWNER_ID w =
     (case main lower OWNER_ID (w\<lparr>stdout := [], stderr := [], exitCode := 0\<rparr>) of
        (Inr u, w') \<Rightarrow> w'
      | (Inl e, w') \<Rightarrow> w'\<lparr>
          stderr := stderr w' @ [[Str (js ''ERROR triage:''),
                                  if message e \<noteq> [] then Str (message e) else Obj e]],
          exitCode := 1\<rparr>)"

section \<open>Notions of the specification\<close>

text \<open>
  The denylist pattern in words: the title is a filler word, compared without regard to
  ASCII case, with any number of non-word code units before and after it.
\<close>

definition ascii_lower :: "cu \<Rightarrow> cu" where
  "ascii_lower c = (if 0x41 \<le> c \<and> c \<le> 0x5A then c + 0x20 else c)"

definition filler_words :: "jsstring list" where
  "filler_words = [js ''idea'', js ''ayuda'', js ''pendiente'', js ''hacer'', js ''tbd'', js ''todo'']"

definition matches_filler_pattern :: "jsstring \<Rightarrow> bool" where
  "matches_filler_pattern s =
     (\<exists>pre w post. s = pre @ w @ post \<and> list_all (\<lambda>c. \<not> is_word c) pre
        \<and> list_all (\<lambda>c. \<not> is_word c) post \<and> map ascii_lower w \<in> set filler_words)"

text \<open>
  The classification in words: an ordered table of keyword sets and buckets, evaluated top
  to bottom against a text; the first row with a keyword that occurs in the text wins.
\<close>

definition bucket_rules :: "(jsstring list \<times> jsstring) list" where
  "bucket_rules =
    [([js ''skool'', js ''comunidad'', js ''curso'', js ''miembros'', js ''post'', js ''contenido''],
      js ''Skool''),
     ([js ''deploy'', js ''infra'', js ''servidor'', js ''gateway'', js ''cron'', js ''ssh'', js ''dns'',
       js ''docker'', js ''uptime'', js ''monitor''], js ''Ops''),
     ([js ''bug'', js ''error'', js ''fix'', js ''api'', js ''next'', js ''frontend'', js ''backend'',
       js ''supabase'', js ''sql'', js ''typescript'', js ''codigo'', js ''c'' @ [0xF3] @ js ''digo''],
      js ''Dev''),
     ([js ''investigar'', js ''research'', js ''benchmark'', js ''comparar'', js ''alternativa'',
       js ''documentaci'' @ [0xF3] @ js ''n'', js ''docs''], js ''Research'')]"

definition occurs_in :: "jsstring \<Rightarrow> jsstring \<Rightarrow> bool" where
  "occurs_in w t = (\<exists>ps ss. t = ps @ w @ ss)"

fun first_match :: "(jsstring list \<times> jsstring) list \<Rightarrow> jsstring \<Rightarrow> jsstring \<Rightarrow> jsstring" where
  "first_match [] dflt t = dflt"
| "first_match ((keywords, bucket) # rules) dflt t =
     (if list_ex (\<lambda>w. occurs_in w t) keywords then bucket else first_match rules dflt t)"

section \<open>The language of a regular expression\<close>

inductive_set star :: "jsstring set \<Rightarrow> jsstring set" for A :: "jsstring set" where
  star_empty: "[] \<in> star A"
| star_step: "u \<in> A \<Longrightarrow> v \<in> star A \<Longrightarrow> u @ v \<in> star A"

fun lang :: "rx \<Rightarrow> jsstring set" where
  "lang Fail = {}"
| "lang Eps = {[]}"
| "lang (Lit c) = {x. \<exists>d. x = [d] \<and> ascii_upper d = ascii_upper c}"
| "lang NotWord = {x. \<exists>d. x = [d] \<and> \<not> is_word d}"
| "lang (Cat r s) = {x. \<exists>u v. x = u @ v \<and> u \<in> lang r \<and> v \<in> lang s}"
| "lang (Alt r s) = lang r \<union> lang s"
| "lang (Star r) = star (lang r)"

definition is_lower_letter :: "cu \<Rightarrow> bool" where
  "is_lower_letter c = (0x61 \<le> c \<and> c \<le> 0x7A)"

section \<open>Example inputs\<close>

definition task0 :: task where
  "task0 = \<lparr>task_id = js ''t0'', task_owner_id = js ''nico'', task_title = None,
     task_description = None, task_status = inbox, task_created_at = 0\<rparr>"

section \<open>Relations between the worlds before and after a step\<close>

text \<open>
  \<open>preserves R m\<close>: whatever the outcome of \<open>m\<close>, failure included, the world after it
  is related by \<open>R\<close> to the world before it. \<open>stable R\<close>: the relation is transitive
  and holds between worlds with the same tables.
\<close>

definition tables :: "world \<Rightarrow> agent list \<times> task list \<times> subtask list \<times> comment list \<times> activity list" where
  "tables w = (agents w, tasks w, subtasks w, comments w, activity_log w)"

definition stable :: "(world \<Rightarrow> world \<Rightarrow> bool) \<Rightarrow> bool" where
  "stable R = ((\<forall>a b c. R a b \<and> R b c \<longrightarrow> R a c) \<and> (\<forall>a b. tables a = tables b \<longrightarrow> R a b))"

definition preserves :: "(world \<Rightarrow> world \<Rightarrow> bool) \<Rightarrow> 'a io \<Rightarrow> bool" where
  "preserves R m = (\<forall>w. R w (snd (m w)))"

text \<open>
  The subtasks of one task, as the existence check of the loop selects them, and the
  relation "a task that has subtasks keeps exactly those".
\<close>

definition subtasks_of :: "jsstring \<Rightarrow> jsstring \<Rightarrow> world \<Rightarrow> subtask list" where
  "subtasks_of ownerId taskId w =
     filter (\<lambda>s. subtask_owner_id s = ownerId \<and> subtask_task_id s = taskId) (subtasks w)"

definition keeps_subtasks :: "jsstring \<Rightarrow> jsstring \<Rightarrow> world \<Rightarrow> world \<Rightarrow> bool" where
  "keeps_subtasks ownerId taskId a b =
     (subtasks_of ownerId taskId a = [] \<or> subtasks_of ownerId taskId b = subtasks_of ownerId taskId a)"

definition same_subtasks :: "world \<Rightarrow> world \<Rightarrow> bool" where
  "same_subtasks a b = (subtasks b = subtasks a)"


text \<open>
  \<open>status_step\<close>: a task row is unchanged, or it was in \<open>inbox\<close> and only its status
  changed, to \<open>triage\<close> or to \<open>needs_nico\<close>.
\<close>

definition status_step :: "task \<Rightarrow> task \<Rightarrow> bool" where
  "status_step r r' = (r' = r \<or> (task_status r = inbox \<and>
     (r' = r\<lparr>task_status := triage\<rparr> \<or> r' = r\<lparr>task_status := needs_nico\<rparr>)))"

definition statuses_advance :: "world \<Rightarrow> world \<Rightarrow> bool" where
  "statuses_advance a b = list_all2 status_step (tasks a) (tasks b)"



text \<open>\<open>adds_batches\<close>: the subtasks table has grown by the plan rows of some tasks, batch by batch.\<close>

definition adds_batches :: "(jsstring \<Rightarrow> jsstring) \<Rightarrow> jsstring \<Rightarrow> world \<Rightarrow> world \<Rightarrow> bool" where
  "adds_batches lower OWNER_ID a b =
     (\<exists>bs. subtasks b = subtasks a @
        concat (map (\<lambda>(roster, jarvisId, task).
          plan_rows lower OWNER_ID roster jarvisId task (buildSubtasks lower task)) bs))"

text \<open>
  \<open>returns Q m\<close>: a value that \<open>m\<close> returns satisfies \<open>Q\<close>. \<open>moves_once\<close>: the
  tasks table is as before or as the one conditional update leaves it.
\<close>

definition returns :: "('a \<Rightarrow> bool) \<Rightarrow> 'a io \<Rightarrow> bool" where
  "returns Q m = (\<forall>w x. fst (m w) = Inr x \<longrightarrow> Q x)"

definition moves_once :: "jsstring \<Rightarrow> jsstring \<Rightarrow> status \<Rightarrow> world \<Rightarrow> world \<Rightarrow> bool" where
  "moves_once ownerId taskId s a b =
     (tasks b = tasks a \<or> tasks b = move_from_inbox ownerId taskId s (tasks a))"

section \<open>Example worlds\<close>

definition owner0 :: jsstring where
  "owner0 = js ''nico''"

definition taskA :: task where
  "taskA = \<lparr>task_id = js ''a1'', task_owner_id = js ''nico'', task_title = Some (js ''Fix bug in API''),
     task_description = Some [], task_status = inbox, task_created_at = 1\<rparr>"

definition taskB :: task where
  "taskB = \<lparr>task_id = js ''b2'', task_owner_id = js ''nico'', task_title = Some (js ''ayuda''),
     task_description = None, task_status = inbox, task_created_at = 2\<rparr>"

definition worldA :: world where
  "worldA = \<lparr>agents = [], tasks = [taskA], subtasks = [], comments = [], activity_log = [],
     faults = [], stdout = [], stderr = [], exitCode = 0\<rparr>"


text \<open>What the examples look at in a world.\<close>

definition digest :: "world \<Rightarrow> nat \<times> nat \<times> nat \<times> status list \<times> nat \<times> console_arg list list" where
  "digest w = (length (subtasks w), length (comments w), length (activity_log w),
     map task_status (tasks w), exitCode w, stderr w)"

definition taskA_moved :: task where
  "taskA_moved = \<lparr>task_id = js ''a1'', task_owner_id = js ''nico'', task_title = Some (js ''Fix bug in API''),
     task_description = Some [], task_status = triage, task_created_at = 1\<rparr>"

definition worldS :: world where
  "worldS = \<lparr>agents = [], tasks = [taskA_moved], subtasks = [], comments = [], activity_log = [],
     faults = [], stdout = [], stderr = [], exitCode = 0\<rparr>"

definition worldB :: world where
  "worldB = \<lparr>agents = [], tasks = [taskB, taskA], subtasks = [], comments = [], activity_log = [],
     faults = [], stdout = [], stderr = [], exitCode = 0\<rparr>"

definition agentDev :: agent where
  "agentDev = \<lparr>agent_id = js ''agent-dev'', agent_owner_id = js ''nico'', agent_name = Some (js ''Dev''),
     agent_role = None, agent_is_active = True\<rparr>"

definition queue21 :: "task list" where
  "queue21 = map (\<lambda>n. \<lparr>task_id = show_nat n, task_owner_id = js ''nico'', task_title = Some (js ''idea''),
     task_description = None, task_status = inbox, task_created_at = 30 - n\<rparr>) [0..<21]"

definition worldR :: world where
  "worldR = \<lparr>agents = [], tasks = [taskA],
     subtasks = [\<lparr>subtask_owner_id = js ''nico'', subtask_task_id = js ''a1'',
       subtask_title = js ''Aclarar alcance y criterios'', subtask_status = in_progress,
       subtask_assignee_agent_id = None, subtask_definition_of_done = js ''hecho'',
       subtask_sort_order = 0, subtask_metadata_triage_bucket = js ''Jarvis''\<rparr>],
     comments = [], activity_log = [], faults = [], stdout = [], stderr = [], exitCode = 0\<rparr>"

section \<open>Properties of the matcher\<close>

lemma nullable_lang: "nullable r \<longleftrightarrow> [] \<in> lang r"
  by (induction r) (auto intro: star_empty)

lemma star_cons_split:
  assumes "x \<in> star A" and "x = d # s"
  shows "\<exists>u v. s = u @ v \<and> d # u \<in> A \<and> v \<in> star A"
  using assms
proof (induction arbitrary: s rule: star.induct)
  case star_empty
  then show ?case by simp
next
  case (star_step u v)
  show ?case
  proof (cases u)
    case Nil
    with star_step show ?thesis by simp
  next
    case (Cons e u')
    with star_step.prems have "e = d" and "s = u' @ v" by simp_all
    with Cons star_step.hyps show ?thesis by blast
  qed
qed

lemma star_cons_iff:
  "d # s \<in> star A \<longleftrightarrow> (\<exists>u v. s = u @ v \<and> d # u \<in> A \<and> v \<in> star A)"
proof
  assume "d # s \<in> star A"
  then show "\<exists>u v. s = u @ v \<and> d # u \<in> A \<and> v \<in> star A"
    by (rule star_cons_split) simp
next
  assume "\<exists>u v. s = u @ v \<and> d # u \<in> A \<and> v \<in> star A"
  then obtain u v where "s = u @ v" "d # u \<in> A" "v \<in> star A" by blast
  then show "d # s \<in> star A"
    using star_step [of "d # u" A v] by simp
qed

lemma cons_in_cat:
  "(\<exists>u v. d # s = u @ v \<and> u \<in> A \<and> v \<in> B) \<longleftrightarrow>
   (\<exists>u v. s = u @ v \<and> d # u \<in> A \<and> v \<in> B) \<or> ([] \<in> A \<and> d # s \<in> B)"
  by (auto simp: Cons_eq_append_conv)

lemma deriv_lang: "s \<in> lang (deriv d r) \<longleftrightarrow> d # s \<in> lang r"
proof (induction r arbitrary: s)
  case (Cat r1 r2)
  show ?case
    using Cat by (simp add: cons_in_cat nullable_lang)
next
  case (Star r)
  show ?case
    using Star by (simp add: star_cons_iff)
qed auto

lemma rx_test_lang: "rx_test r s \<longleftrightarrow> s \<in> lang r"
  by (induction s arbitrary: r) (simp_all add: nullable_lang deriv_lang)

lemma fold_case_eq:
  assumes "is_lower_letter c"
  shows "ascii_upper d = ascii_upper c \<longleftrightarrow> ascii_lower d = c"
  using assms unfolding is_lower_letter_def ascii_upper_def ascii_lower_def
  by (auto simp: word_le_nat_alt word_less_nat_alt) unat_arith+

lemma lang_word_rx:
  "list_all is_lower_letter w \<Longrightarrow> lang (word_rx w) = {x. map ascii_lower x = w}"
proof (induction w)
  case Nil
  then show ?case by simp
next
  case (Cons c w)
  then have c: "is_lower_letter c" and w: "lang (word_rx w) = {x. map ascii_lower x = w}"
    by simp_all
  have "x \<in> lang (word_rx (c # w)) \<longleftrightarrow> (\<exists>d v. x = d # v \<and> ascii_lower d = c \<and> map ascii_lower v = w)" for x
  proof
    assume "x \<in> lang (word_rx (c # w))"
    then obtain d v where "x = [d] @ v" "ascii_upper d = ascii_upper c" "v \<in> lang (word_rx w)"
      by auto
    then show "\<exists>d v. x = d # v \<and> ascii_lower d = c \<and> map ascii_lower v = w"
      by (simp add: w fold_case_eq [OF c])
  next
    assume "\<exists>d v. x = d # v \<and> ascii_lower d = c \<and> map ascii_lower v = w"
    then obtain d v where "x = [d] @ v" "ascii_upper d = ascii_upper c" "v \<in> lang (word_rx w)"
      by (auto simp: w fold_case_eq [OF c])
    then show "x \<in> lang (word_rx (c # w))"
      unfolding word_rx.simps lang.simps by blast
  qed
  then show ?case
    by (auto simp: map_eq_Cons_conv)
qed

lemma star_NotWord: "star (lang NotWord) = {s. list_all (\<lambda>c. \<not> is_word c) s}"
proof (rule set_eqI, rule iffI)
  fix s assume "s \<in> star (lang NotWord)"
  then show "s \<in> {s. list_all (\<lambda>c. \<not> is_word c) s}"
    by (induction rule: star.induct) auto
next
  fix s assume "s \<in> {s. list_all (\<lambda>c. \<not> is_word c) s}"
  then have "list_all (\<lambda>c. \<not> is_word c) s" by simp
  then show "s \<in> star (lang NotWord)"
  proof (induction s)
    case Nil
    show ?case by (rule star_empty)
  next
    case (Cons d s)
    then have "[d] \<in> lang NotWord" and "s \<in> star (lang NotWord)" by simp_all
    then have "[d] @ s \<in> star (lang NotWord)" by (rule star_step)
    then show ?case by simp
  qed
qed

lemma lower_letters_filler: "list_all (list_all is_lower_letter) filler_words"
  by (simp add: filler_words_def js_def is_lower_letter_def)

lemma lang_filler_rx: "s \<in> lang filler_rx \<longleftrightarrow> matches_filler_pattern s"
proof -
  have w: "\<And>w. w \<in> set filler_words \<Longrightarrow> lang (word_rx w) = {x. map ascii_lower x = w}"
    using lower_letters_filler by (auto simp: list_all_iff intro!: lang_word_rx)
  have alts: "lang (Alt (word_rx (js ''idea'')) (Alt (word_rx (js ''ayuda'')) (Alt (word_rx (js ''pendiente''))
            (Alt (word_rx (js ''hacer'')) (Alt (word_rx (js ''tbd'')) (word_rx (js ''todo''))))))) =
        {x. map ascii_lower x \<in> set filler_words}"
    using w [of "js ''idea''"] w [of "js ''ayuda''"] w [of "js ''pendiente''"]
      w [of "js ''hacer''"] w [of "js ''tbd''"] w [of "js ''todo''"]
    by (auto simp: filler_words_def)
  have sn: "lang (Star NotWord) = {s. list_all (\<lambda>c. \<not> is_word c) s}"
    using star_NotWord by simp
  have "s \<in> lang filler_rx \<longleftrightarrow>
      (\<exists>u v. s = u @ v \<and> list_all (\<lambda>c. \<not> is_word c) u \<and>
        (\<exists>w p. v = w @ p \<and> map ascii_lower w \<in> set filler_words \<and> list_all (\<lambda>c. \<not> is_word c) p))"
    unfolding filler_rx_def by (simp only: lang.simps(5) alts sn mem_Collect_eq)
  also have "\<dots> \<longleftrightarrow> matches_filler_pattern s"
    unfolding matches_filler_pattern_def by blast
  finally show ?thesis .
qed

section \<open>Classifier and Plan Builder\<close>

lemma starts_with_iff: "starts_with t w \<longleftrightarrow> (\<exists>ss. t = w @ ss)"
  by (induction t w rule: starts_with.induct) auto

lemma includes_js_iff: "includes_js t w \<longleftrightarrow> occurs_in w t"
proof (induction t)
  case Nil
  show ?case by (auto simp: occurs_in_def)
next
  case (Cons d t)
  have "occurs_in w (d # t) \<longleftrightarrow> (\<exists>ss. d # t = w @ ss) \<or> occurs_in w t"
    unfolding occurs_in_def
    by (auto simp: Cons_eq_append_conv)
  then show ?case
    using Cons by (simp add: starts_with_iff)
qed

lemma has_iff: "has t ws \<longleftrightarrow> list_ex (\<lambda>w. occurs_in w t) ws"
  by (simp add: has_def includes_js_iff)

lemma bucket_names_distinct:
  "js ''Research'' \<noteq> js ''Skool''" "js ''Research'' \<noteq> js ''Dev''" "js ''Research'' \<noteq> js ''Ops''"
  "js ''Skool'' \<noteq> js ''Dev''" "js ''Skool'' \<noteq> js ''Ops''" "js ''Dev'' \<noteq> js ''Ops''"
  "js ''Skool'' \<noteq> js ''Research''" "js ''Dev'' \<noteq> js ''Research''" "js ''Ops'' \<noteq> js ''Research''"
  "js ''Dev'' \<noteq> js ''Skool''" "js ''Ops'' \<noteq> js ''Skool''" "js ''Ops'' \<noteq> js ''Dev''"
  by (simp_all add: js_def)

lemma length_pushed_steps: "length (pushed_steps lower task) = 2 \<or> length (pushed_steps lower task) = 3"
  by (auto simp: pushed_steps_def Let_def bucket_names_distinct)

lemma hd_pushed_steps: "step_title (hd (pushed_steps lower task)) = js ''Aclarar alcance y criterios''"
  by (simp add: pushed_steps_def Let_def)

lemma last_pushed_steps: "step_title (last (pushed_steps lower task)) = js ''Validaci'' @ [0xF3] @ js ''n final''"
  by (simp add: pushed_steps_def Let_def)


section \<open>Claims about the Classifier and the Plan Builder\<close>

text \<open>
  C1. For every title and description, \<open>needsNico\<close> is true if and only if the trimmed
  title is shorter than 8 code units or matches the filler-word pattern (a denylist word in
  any case, with non-word code units around it), and the trimmed description is empty.
\<close>

theorem needsNico_iff:
  "needsNico (task\<lparr>task_title := Some title, task_description := Some description\<rparr>) \<longleftrightarrow>
     (length (trim title) < 8 \<or> matches_filler_pattern (trim title)) \<and> trim description = []"
  by (simp add: needsNico_def normalizeText_def Let_def rx_test_lang lang_filler_rx)

theorem needsNico_iff_witness:
  "needsNico (task0\<lparr>task_title := Some (js '' ..Pendiente!! ''), task_description := Some (js ''  '')\<rparr>)
   \<and> \<not> length (trim (js '' ..Pendiente!! '')) < 8
   \<and> matches_filler_pattern (trim (js '' ..Pendiente!! ''))"
proof -
  have a: "needsNico (task0\<lparr>task_title := Some (js '' ..Pendiente!! ''), task_description := Some (js ''  '')\<rparr>)"
    by code_simp
  have b: "\<not> length (trim (js '' ..Pendiente!! '')) < 8"
    by code_simp
  show ?thesis
    using a b needsNico_iff [where task = task0 and title = "js '' ..Pendiente!! ''" and description = "js ''  ''"]
    by blast
qed

text \<open>
  C2. For every task, \<open>buildSubtasks\<close> returns between 2 and 7 steps, the first is the
  scope-clarification step, the last is the final-validation step, and the result is the
  pushed steps cut to their first 7.
\<close>

theorem buildSubtasks_shape:
  "2 \<le> length (buildSubtasks lower task) \<and> length (buildSubtasks lower task) \<le> 7
   \<and> step_title (hd (buildSubtasks lower task)) = js ''Aclarar alcance y criterios''
   \<and> step_title (last (buildSubtasks lower task)) = js ''Validaci'' @ [0xF3] @ js ''n final''
   \<and> buildSubtasks lower task = take 7 (pushed_steps lower task)"
proof -
  have "buildSubtasks lower task = pushed_steps lower task"
    using length_pushed_steps [of lower task] by (auto simp: buildSubtasks_def)
  then show ?thesis
    using length_pushed_steps [of lower task] hd_pushed_steps [of lower task]
      last_pushed_steps [of lower task]
    by (auto simp: buildSubtasks_def)
qed

text \<open>
  C3, as stated: the rules are evaluated against the lower-cased concatenation of title and
  description. That fails: for the title \<open>sko\<close> and the description \<open>ol\<close> the
  concatenation contains the keyword \<open>skool\<close>, and \<open>inferAgentBucket\<close> answers the
  default bucket, because it puts a line feed between the two.
\<close>

theorem inferAgentBucket_plain_concat_counterexample:
  "inferAgentBucket lower_latin1 (Some (js ''sko'')) (Some (js ''ol'')) = js ''Jarvis'' \<and>
   first_match bucket_rules (js ''Jarvis'') (lower_latin1 (js ''sko'' @ js ''ol'')) = js ''Skool''"
proof -
  have "includes_js (lower_latin1 (js ''sko'' @ js ''ol'')) (js ''skool'')" by code_simp
  then have "occurs_in (js ''skool'') (lower_latin1 (js ''sko'' @ js ''ol''))"
    by (simp only: includes_js_iff)
  then have "first_match bucket_rules (js ''Jarvis'') (lower_latin1 (js ''sko'' @ js ''ol'')) = js ''Skool''"
    by (simp add: bucket_rules_def)
  moreover have "inferAgentBucket lower_latin1 (Some (js ''sko'')) (Some (js ''ol'')) = js ''Jarvis''"
    by code_simp
  ultimately show ?thesis by simp
qed

text \<open>
  C3, amended. For every title and description, \<open>inferAgentBucket\<close> is the ordered table
  Skool, Ops, Dev, Research evaluated first-match-wins, with the default bucket Jarvis when
  no row matches, against the lower-cased text made of the trimmed title, a line feed and
  the trimmed description. It is a function of the two strings (and of the runtime's
  lower-casing) alone.
\<close>

theorem inferAgentBucket_first_match:
  "inferAgentBucket lower (Some title) (Some description) =
     first_match bucket_rules (js ''Jarvis'') (lower (trim title @ [0x0A] @ trim description))"
  unfolding inferAgentBucket_def bucket_rules_def Let_def has_iff normalizeText_def
  by (simp only: first_match.simps option.case)

section \<open>Composing steps\<close>

lemma stable_refl: "stable R \<Longrightarrow> R w w"
  unfolding stable_def by blast

lemma stable_trans: "stable R \<Longrightarrow> R a b \<Longrightarrow> R b c \<Longrightarrow> R a c"
  unfolding stable_def by blast

lemma stable_tables: "stable R \<Longrightarrow> tables a = tables b \<Longrightarrow> R a b"
  unfolding stable_def by blast

lemma tables_faults [simp]: "tables (w\<lparr>faults := fs\<rparr>) = tables w"
  by (simp add: tables_def)

lemma tables_stdout [simp]: "tables (w\<lparr>stdout := x\<rparr>) = tables w"
  by (simp add: tables_def)

lemma tables_stderr [simp]: "tables (w\<lparr>stderr := y\<rparr>) = tables w"
  by (simp add: tables_def)

lemma tables_exitCode [simp]: "tables (w\<lparr>exitCode := z\<rparr>) = tables w"
  by (simp add: tables_def)

lemma preserves_return: "stable R \<Longrightarrow> preserves R (return_io x)"
  by (auto simp: preserves_def return_io_def intro: stable_refl)

lemma preserves_bind:
  assumes "stable R" and "preserves R m" and "\<And>x. preserves R (f x)"
  shows "preserves R (bind_io m f)"
  unfolding preserves_def
proof
  fix w
  obtain r w1 where m: "m w = (r, w1)" by (cases "m w")
  have "R w (snd (m w))" using assms(2) by (simp add: preserves_def)
  then have 1: "R w w1" using m by simp
  show "R w (snd (bind_io m f w))"
  proof (cases r)
    case (Inl e)
    then show ?thesis using m 1 by (simp add: bind_io_def)
  next
    case (Inr x)
    have "R w1 (snd (f x w1))" using assms(3) by (simp add: preserves_def)
    with 1 have "R w (snd (f x w1))" by (rule stable_trans [OF assms(1)])
    then show ?thesis using Inr m by (simp add: bind_io_def)
  qed
qed

lemma tables_next_fault [simp]: "tables (snd (next_fault w)) = tables w"
  by (simp add: next_fault_def split: list.splits)

lemma store_call_step:
  assumes "stable R" and "\<And>v. tables v = tables w \<Longrightarrow> R v (snd (f v))"
  shows "R w (snd (store_call f w))"
proof -
  obtain x w1 where n: "next_fault w = (x, w1)" by (cases "next_fault w")
  then have "tables w1 = tables w" using tables_next_fault [of w] by simp
  then have t: "R w w1" and s: "R w1 (snd (f w1))"
    using assms by (auto intro: stable_tables)
  show ?thesis
  proof (cases x)
    case None
    from t s have "R w (snd (f w1))" by (rule stable_trans [OF assms(1)])
    then show ?thesis using n None by (simp add: store_call_def)
  next
    case (Some m)
    then show ?thesis using n t by (simp add: store_call_def)
  qed
qed

lemma preserves_store_call:
  assumes "stable R" and "\<And>w. R w (snd (f w))"
  shows "preserves R (store_call f)"
  unfolding preserves_def using assms by (auto intro: store_call_step)

lemma preserves_if:
  "(c \<Longrightarrow> preserves R a) \<Longrightarrow> (\<not> c \<Longrightarrow> preserves R b) \<Longrightarrow> preserves R (if c then a else b)"
  by simp

lemma preserves_select_agents: "stable R \<Longrightarrow> preserves R (select_agents ownerId)"
  unfolding select_agents_def by (rule preserves_store_call) (auto intro: stable_refl)

lemma preserves_select_inbox_tasks: "stable R \<Longrightarrow> preserves R (select_inbox_tasks ownerId)"
  unfolding select_inbox_tasks_def by (rule preserves_store_call) (auto intro: stable_refl)

lemma preserves_select_subtasks: "stable R \<Longrightarrow> preserves R (select_subtasks ownerId taskId)"
  unfolding select_subtasks_def by (rule preserves_store_call) (auto intro: stable_refl)

lemma preserves_insert_subtasks:
  "stable R \<Longrightarrow> (\<And>w. R w (w\<lparr>subtasks := subtasks w @ rows\<rparr>)) \<Longrightarrow> preserves R (insert_subtasks rows)"
  unfolding insert_subtasks_def by (rule preserves_store_call) simp_all

lemma preserves_insert_comment:
  "stable R \<Longrightarrow> (\<And>w. R w (w\<lparr>comments := comments w @ [c]\<rparr>)) \<Longrightarrow> preserves R (insert_comment c)"
  unfolding insert_comment_def by (rule preserves_store_call) simp_all

lemma preserves_insertActivity:
  "stable R \<Longrightarrow> (\<And>w. R w (w\<lparr>activity_log := activity_log w @ [a]\<rparr>)) \<Longrightarrow> preserves R (insertActivity a)"
  unfolding insertActivity_def by (rule preserves_store_call) simp_all

lemma preserves_update_task_status:
  "stable R \<Longrightarrow> (\<And>w. R w (w\<lparr>tasks := move_from_inbox ownerId taskId s (tasks w)\<rparr>))
     \<Longrightarrow> preserves R (update_task_status ownerId taskId s)"
  unfolding update_task_status_def by (rule preserves_store_call) simp_all

lemma preserves_console_log: "stable R \<Longrightarrow> preserves R (console_log ls)"
  by (auto simp: preserves_def console_log_def intro: stable_tables)

lemma preserves_body:
  assumes st: "stable R"
    and sub: "\<And>w. R w (w\<lparr>subtasks := subtasks w @
        plan_rows lower OWNER_ID roster jarvisId task (buildSubtasks lower task)\<rparr>)"
    and com: "\<And>w c. comment_task_id c = task_id task \<Longrightarrow> R w (w\<lparr>comments := comments w @ [c]\<rparr>)"
    and act: "\<And>w a. activity_entity_id a = task_id task \<Longrightarrow> R w (w\<lparr>activity_log := activity_log w @ [a]\<rparr>)"
    and upd: "\<And>w s. s = triage \<or> s = needs_nico \<Longrightarrow>
        R w (w\<lparr>tasks := move_from_inbox OWNER_ID (task_id task) s (tasks w)\<rparr>)"
  shows "preserves R (main_loop_body lower OWNER_ID roster jarvisId task)"
  unfolding main_loop_body_def Let_def
  by (intro preserves_bind preserves_if preserves_return preserves_select_subtasks
      preserves_insert_subtasks preserves_insert_comment preserves_insertActivity
      preserves_update_task_status st sub com act upd) simp_all

lemma preserves_main_loop:
  assumes "stable R" and "\<And>task. preserves R (main_loop_body lower OWNER_ID roster jarvisId task)"
  shows "preserves R (main_loop lower OWNER_ID roster jarvisId ts ps)"
  using assms
  by (induction ts arbitrary: ps) (auto intro!: preserves_bind preserves_return)

lemma preserves_main:
  assumes "stable R"
    and "\<And>roster jarvisId task. preserves R (main_loop_body lower OWNER_ID roster jarvisId task)"
  shows "preserves R (main lower OWNER_ID)"
  unfolding main_def getAgentRoster_def Let_def
  by (intro preserves_bind preserves_if preserves_return preserves_select_agents
      preserves_select_inbox_tasks preserves_main_loop preserves_console_log assms)

lemma run_related:
  assumes "stable R"
    and "\<And>roster jarvisId task. preserves R (main_loop_body lower OWNER_ID roster jarvisId task)"
  shows "R w (run lower OWNER_ID w)"
proof -
  let ?w0 = "w\<lparr>stdout := [], stderr := [], exitCode := 0\<rparr>"
  have 0: "R w ?w0" by (rule stable_tables [OF assms(1)]) simp
  have 1: "R ?w0 (snd (main lower OWNER_ID ?w0))"
    using preserves_main [OF assms] by (simp add: preserves_def)
  obtain r w1 where m: "main lower OWNER_ID ?w0 = (r, w1)" by (cases "main lower OWNER_ID ?w0")
  have "R w1 (run lower OWNER_ID w)"
    using m assms(1) by (cases r) (simp_all add: run_def stable_tables)
  with 0 1 m show ?thesis using assms(1) by (auto intro: stable_trans)
qed

section \<open>Existing subtasks suppress decomposition\<close>

lemma next_fault_fields [simp]:
  "agents (snd (next_fault w)) = agents w"
  "tasks (snd (next_fault w)) = tasks w"
  "subtasks (snd (next_fault w)) = subtasks w"
  "comments (snd (next_fault w)) = comments w"
  "activity_log (snd (next_fault w)) = activity_log w"
  "stdout (snd (next_fault w)) = stdout w"
  "stderr (snd (next_fault w)) = stderr w"
  "exitCode (snd (next_fault w)) = exitCode w"
  by (simp_all add: next_fault_def split: list.splits)

lemma plan_rows_key:
  "s \<in> set (plan_rows lower OWNER_ID roster jarvisId task plan) \<Longrightarrow>
     subtask_owner_id s = OWNER_ID \<and> subtask_task_id s = task_id task"
  by (auto simp: plan_rows_def)

lemma filter_plan_rows_other:
  "i \<noteq> task_id task \<Longrightarrow>
   filter (\<lambda>s. subtask_owner_id s = ownerId \<and> subtask_task_id s = i)
     (plan_rows lower OWNER_ID roster jarvisId task plan) = []"
  by (auto simp: filter_empty_conv dest: plan_rows_key)

lemma no_existing: "existing_subtasks ownerId taskId rows = [] \<longleftrightarrow>
    filter (\<lambda>s. subtask_owner_id s = ownerId \<and> subtask_task_id s = taskId) rows = []"
  by (simp add: existing_subtasks_def take_Suc split: list.splits)

lemma store_call_unfold:
  "store_call f w =
     (case fst (next_fault w) of
        Some m \<Rightarrow> (Inl (StoreError m), snd (next_fault w))
      | None \<Rightarrow> (Inr (fst (f (snd (next_fault w)))), snd (f (snd (next_fault w)))))"
  by (simp add: store_call_def split: prod.splits option.splits)

lemma bind_store_call:
  "bind_io (store_call f) K w =
     (case fst (next_fault w) of
        Some m \<Rightarrow> (Inl (StoreError m), snd (next_fault w))
      | None \<Rightarrow> K (fst (f (snd (next_fault w)))) (snd (f (snd (next_fault w)))))"
  by (simp add: bind_io_def store_call_unfold split: option.splits)

lemma bind_return: "bind_io (return_io x) K w = K x w"
  by (simp add: bind_io_def return_io_def)

lemma bind_assoc: "bind_io (bind_io m f) g = bind_io m (\<lambda>x. bind_io (f x) g)"
  by (auto simp: bind_io_def fun_eq_iff split: prod.splits sum.splits)

lemma stable_same_subtasks: "stable same_subtasks"
  by (auto simp: stable_def same_subtasks_def tables_def)

lemma stable_keeps_subtasks: "stable (keeps_subtasks ownerId taskId)"
  by (auto simp: stable_def keeps_subtasks_def subtasks_of_def tables_def)

text \<open>A query, then an insert that depends on its answer, then steps that leave the table alone.\<close>

lemma query_then_insert:
  assumes A: "\<And>d. preserves same_subtasks (A d)"
    and B: "\<And>x n. preserves same_subtasks (B x n)"
  shows "subtasks (snd (bind_io (select_subtasks ownerId taskId)
           (\<lambda>x. bind_io (if c x then bind_io (insert_subtasks rows) A else return_io z) (B x)) w)) = subtasks w
         \<or> (c (existing_subtasks ownerId taskId (subtasks w)) \<and>
            subtasks (snd (bind_io (select_subtasks ownerId taskId)
           (\<lambda>x. bind_io (if c x then bind_io (insert_subtasks rows) A else return_io z) (B x)) w)) = subtasks w @ rows)"
proof -
  have K: "subtasks (snd (bind_io (A d) (B x) v)) = subtasks v" for d x v
  proof -
    have "preserves same_subtasks (bind_io (A d) (B x))"
      by (rule preserves_bind [OF stable_same_subtasks A B])
    then show ?thesis by (simp add: preserves_def same_subtasks_def)
  qed
  have B': "subtasks (snd (B x n v)) = subtasks v" for x n v
    using B [of x n] by (simp add: preserves_def same_subtasks_def)
  show ?thesis
    by (simp add: select_subtasks_def insert_subtasks_def bind_store_call bind_assoc bind_return
        K B' split: option.splits)
qed

lemma body_subtasks:
  "subtasks (snd (main_loop_body lower OWNER_ID roster jarvisId task w)) = subtasks w \<or>
   ((\<not> 0 < length (existing_subtasks OWNER_ID (task_id task) (subtasks w)) \<and> \<not> needsNico task) \<and>
    subtasks (snd (main_loop_body lower OWNER_ID roster jarvisId task w)) =
      subtasks w @ plan_rows lower OWNER_ID roster jarvisId task (buildSubtasks lower task))"
  unfolding main_loop_body_def Let_def
  apply (rule query_then_insert)
   apply (intro preserves_bind preserves_return preserves_insertActivity stable_same_subtasks)
   apply (simp add: same_subtasks_def)
  apply (intro preserves_bind preserves_return preserves_insertActivity preserves_insert_comment
      preserves_update_task_status stable_same_subtasks)
     apply (simp_all add: same_subtasks_def)
  done

lemma body_keeps_subtasks:
  "preserves (keeps_subtasks OWNER_ID i) (main_loop_body lower OWNER_ID roster jarvisId task)"
  unfolding preserves_def
proof
  fix w
  let ?w' = "snd (main_loop_body lower OWNER_ID roster jarvisId task w)"
  from body_subtasks [of lower OWNER_ID roster jarvisId task w]
  show "keeps_subtasks OWNER_ID i w ?w'"
  proof
    assume "subtasks ?w' = subtasks w"
    then show ?thesis by (simp add: keeps_subtasks_def subtasks_of_def)
  next
    assume a: "(\<not> 0 < length (existing_subtasks OWNER_ID (task_id task) (subtasks w)) \<and> \<not> needsNico task) \<and>
      subtasks ?w' = subtasks w @ plan_rows lower OWNER_ID roster jarvisId task (buildSubtasks lower task)"
    then have none: "subtasks_of OWNER_ID (task_id task) w = []"
      by (simp add: no_existing subtasks_of_def)
    show ?thesis
    proof (cases "i = task_id task")
      case True
      with none show ?thesis by (simp add: keeps_subtasks_def)
    next
      case False
      with a show ?thesis
        by (simp add: keeps_subtasks_def subtasks_of_def filter_plan_rows_other)
    qed
  qed
qed

lemma run_keeps_subtasks: "keeps_subtasks OWNER_ID i w (run lower OWNER_ID w)"
  by (rule run_related [OF stable_keeps_subtasks body_keeps_subtasks])

section \<open>Append-only tables, status steps and store failures\<close>


lemma status_step_trans: "status_step a b \<Longrightarrow> status_step b c \<Longrightarrow> status_step a c"
  by (auto simp: status_step_def)

lemma stable_statuses_advance: "stable statuses_advance"
proof -
  have "list_all2 status_step xs xs" for xs
    by (simp add: list_all2_same status_step_def)
  moreover have "list_all2 status_step xs zs"
    if "list_all2 status_step xs ys" "list_all2 status_step ys zs" for xs ys zs
    using that by (rule list_all2_trans [rotated]) (rule status_step_trans)
  ultimately show ?thesis
    unfolding stable_def statuses_advance_def tables_def by (auto 0 3)
qed

lemma move_from_inbox_step:
  "s = triage \<or> s = needs_nico \<Longrightarrow> list_all2 status_step rows (move_from_inbox ownerId taskId s rows)"
  by (auto simp: move_from_inbox_def list_all2_map2 list_all2_same status_step_def)


lemma body_statuses_advance:
  "preserves statuses_advance (main_loop_body lower OWNER_ID roster jarvisId task)"
  by (rule preserves_body [OF stable_statuses_advance])
    (auto simp: statuses_advance_def list_all2_same status_step_def intro: move_from_inbox_step)













lemma stable_adds_batches: "stable (adds_batches lower OWNER_ID)"
proof -
  have r: "adds_batches lower OWNER_ID a b" if "tables a = tables b" for a b
    using that by (auto simp: adds_batches_def tables_def intro: exI [of _ "[]"])
  have t: "adds_batches lower OWNER_ID a c"
    if "adds_batches lower OWNER_ID a b" "adds_batches lower OWNER_ID b c" for a b c
  proof -
    from that obtain bs cs where
      "subtasks b = subtasks a @ concat (map (\<lambda>(roster, jarvisId, task).
          plan_rows lower OWNER_ID roster jarvisId task (buildSubtasks lower task)) bs)"
      "subtasks c = subtasks b @ concat (map (\<lambda>(roster, jarvisId, task).
          plan_rows lower OWNER_ID roster jarvisId task (buildSubtasks lower task)) cs)"
      unfolding adds_batches_def by blast
    then have "subtasks c = subtasks a @ concat (map (\<lambda>(roster, jarvisId, task).
          plan_rows lower OWNER_ID roster jarvisId task (buildSubtasks lower task)) (bs @ cs))"
      by simp
    then show ?thesis unfolding adds_batches_def by blast
  qed
  show ?thesis unfolding stable_def using r t by blast
qed

lemma body_adds_batches:
  "preserves (adds_batches lower OWNER_ID) (main_loop_body lower OWNER_ID roster jarvisId task)"
proof (rule preserves_body [OF stable_adds_batches])
  fix w
  show "adds_batches lower OWNER_ID w (w\<lparr>subtasks := subtasks w @
        plan_rows lower OWNER_ID roster jarvisId task (buildSubtasks lower task)\<rparr>)"
    unfolding adds_batches_def by (rule exI [of _ "[(roster, jarvisId, task)]"]) simp
qed (auto simp: adds_batches_def intro: exI [of _ "[]"])

section \<open>A loop body without store failures\<close>

lemma next_fault_ok: "faults w = [] \<Longrightarrow> next_fault w = (None, w)"
  by (simp add: next_fault_def)

lemma store_call_ok: "faults w = [] \<Longrightarrow> store_call f w = (Inr (fst (f w)), snd (f w))"
  by (simp add: store_call_def next_fault_ok)

lemma bind_store_call_ok: "faults w = [] \<Longrightarrow> bind_io (store_call f) K w = K (fst (f w)) (snd (f w))"
  by (simp add: bind_io_def store_call_ok)

lemmas run_ok = bind_assoc bind_store_call_ok bind_return store_call_ok select_subtasks_def
  insert_subtasks_def insert_comment_def insertActivity_def update_task_status_def
  select_agents_def select_inbox_tasks_def

lemma length_plan_rows [simp]:
  "length (plan_rows lower OWNER_ID roster jarvisId task plan) = length plan"
  by (simp add: plan_rows_def)

lemma length_buildSubtasks:
  "length (buildSubtasks lower task) = 2 \<or> length (buildSubtasks lower task) = 3"
  using length_pushed_steps [of lower task] by (auto simp: buildSubtasks_def)

lemma buildSubtasks_nonempty [simp]: "buildSubtasks lower task \<noteq> []"
  using length_buildSubtasks [of lower task] by auto

lemma plan_rows_nonempty [simp]:
  "plan_rows lower OWNER_ID roster jarvisId task (buildSubtasks lower task) \<noteq> []"
  using length_plan_rows [of lower OWNER_ID roster jarvisId task "buildSubtasks lower task"]
  by (auto simp del: length_plan_rows)

lemma body_ok:
  assumes "faults w = []"
  shows "main_loop_body lower OWNER_ID roster jarvisId task w =
    (Inr \<lparr>processed_id = task_id task,
          processed_subtasks_created =
            (if existing_subtasks OWNER_ID (task_id task) (subtasks w) = [] \<and> \<not> needsNico task
             then length (buildSubtasks lower task) else 0),
          processed_status = (if needsNico task then needs_nico else triage),
          processed_skipped_existing = (existing_subtasks OWNER_ID (task_id task) (subtasks w) \<noteq> [])\<rparr>,
     w\<lparr>subtasks :=
         (if existing_subtasks OWNER_ID (task_id task) (subtasks w) = [] \<and> \<not> needsNico task
          then subtasks w @ plan_rows lower OWNER_ID roster jarvisId task (buildSubtasks lower task)
          else subtasks w),
       comments := comments w @ [\<lparr>comment_owner_id = OWNER_ID, comment_task_id = task_id task,
          comment_author_type = js ''agent'', comment_author_agent_id = jarvisId,
          comment_body = commentBody task (needsNico task)\<rparr>],
       tasks := move_from_inbox OWNER_ID (task_id task)
          (if needsNico task then needs_nico else triage) (tasks w),
       activity_log := activity_log w @
         (if existing_subtasks OWNER_ID (task_id task) (subtasks w) = [] \<and> \<not> needsNico task
          then [\<lparr>activity_owner_id = OWNER_ID, activity_actor_type = js ''agent'',
                 activity_actor_agent_id = jarvisId, activity_action = js ''create_subtasks'',
                 activity_entity_type = js ''task'', activity_entity_id = task_id task,
                 activity_data = Created (length (buildSubtasks lower task))\<rparr>]
          else []) @
         [\<lparr>activity_owner_id = OWNER_ID, activity_actor_type = js ''agent'',
           activity_actor_agent_id = jarvisId, activity_action = js ''add_comment'',
           activity_entity_type = js ''task'', activity_entity_id = task_id task,
           activity_data = Kind (js ''triage_summary'')\<rparr>,
          \<lparr>activity_owner_id = OWNER_ID, activity_actor_type = js ''agent'',
           activity_actor_agent_id = jarvisId, activity_action = js ''move_status'',
           activity_entity_type = js ''task'', activity_entity_id = task_id task,
           activity_data = FromTo inbox (if needsNico task then needs_nico else triage)\<rparr>]\<rparr>)"
  using assms
  by (simp add: main_loop_body_def Let_def run_ok return_io_def)

lemma returns_return: "Q x \<Longrightarrow> returns Q (return_io x)"
  by (simp add: returns_def return_io_def)

lemma returns_bind: "(\<And>x. returns Q (f x)) \<Longrightarrow> returns Q (bind_io m f)"
  by (auto simp: returns_def bind_io_def split: prod.splits sum.splits)

lemma body_returns:
  "returns (\<lambda>p. processed_id p = task_id task \<and>
      processed_status p = (if needsNico task then needs_nico else triage))
    (main_loop_body lower OWNER_ID roster jarvisId task)"
  unfolding main_loop_body_def Let_def
  by (intro returns_bind returns_return) simp

lemma move_from_inbox_idem:
  "s \<noteq> inbox \<Longrightarrow> move_from_inbox ownerId taskId s (move_from_inbox ownerId taskId s rows)
     = move_from_inbox ownerId taskId s rows"
  by (simp add: move_from_inbox_def)

lemma stable_moves_once: "s \<noteq> inbox \<Longrightarrow> stable (moves_once ownerId taskId s)"
  unfolding stable_def moves_once_def tables_def
  by (auto simp: move_from_inbox_idem)

lemma body_moves_once:
  "preserves (moves_once OWNER_ID (task_id task) (if needsNico task then needs_nico else triage))
     (main_loop_body lower OWNER_ID roster jarvisId task)"
  unfolding main_loop_body_def Let_def
  by (intro preserves_bind preserves_if preserves_return preserves_select_subtasks
      preserves_insert_subtasks preserves_insert_comment preserves_insertActivity
      preserves_update_task_status stable_moves_once) (simp_all add: moves_once_def)

lemma body_ok_parts:
  assumes "faults w = []"
  shows "\<exists>p. fst (main_loop_body lower OWNER_ID roster jarvisId task w) = Inr p \<and> processed_id p = task_id task"
    and "faults (snd (main_loop_body lower OWNER_ID roster jarvisId task w)) = []"
    and "stdout (snd (main_loop_body lower OWNER_ID roster jarvisId task w)) = stdout w"
    and "\<exists>c. comments (snd (main_loop_body lower OWNER_ID roster jarvisId task w)) = comments w @ [c]
           \<and> comment_task_id c = task_id task"
  using assms by (simp_all add: body_ok)

lemma main_loop_ok:
  assumes "faults w = []" and "list_all (\<lambda>t. task_status t = inbox) ts"
  shows "\<exists>qs w'. main_loop lower OWNER_ID roster jarvisId ts ps w = (Inr (ps @ qs), w')
           \<and> faults w' = [] \<and> stdout w' = stdout w \<and> map processed_id qs = map task_id ts
           \<and> (\<exists>cs. comments w' = comments w @ cs \<and> map comment_task_id cs = map task_id ts)"
  using assms
proof (induction ts arbitrary: ps w)
  case Nil
  then show ?case by (simp add: return_io_def)
next
  case (Cons t ts)
  let ?b = "main_loop_body lower OWNER_ID roster jarvisId t w"
  from body_ok_parts [OF Cons.prems(1), of lower OWNER_ID roster jarvisId t]
  obtain p c where p: "fst ?b = Inr p" "processed_id p = task_id t"
    and f: "faults (snd ?b) = []" and o: "stdout (snd ?b) = stdout w"
    and c: "comments (snd ?b) = comments w @ [c]" "comment_task_id c = task_id t"
    by blast
  from Cons.prems(2) have ts: "list_all (\<lambda>t. task_status t = inbox) ts" and t: "task_status t = inbox"
    by simp_all
  from Cons.IH [OF f ts, of "ps @ [p]"]
  obtain qs w' cs where r: "main_loop lower OWNER_ID roster jarvisId ts (ps @ [p]) (snd ?b) = (Inr ((ps @ [p]) @ qs), w')"
    and r': "faults w' = []" "stdout w' = stdout (snd ?b)" "map processed_id qs = map task_id ts"
       "comments w' = comments (snd ?b) @ cs" "map comment_task_id cs = map task_id ts"
    by blast
  have "main_loop lower OWNER_ID roster jarvisId (t # ts) ps w = (Inr (ps @ (p # qs)), w')"
    using t p(1) r by (cases ?b) (simp add: bind_io_def)
  moreover have "map processed_id (p # qs) = map task_id (t # ts)" using p(2) r'(3) by simp
  moreover have "comments w' = comments w @ (c # cs)" "map comment_task_id (c # cs) = map task_id (t # ts)"
    using c r'(4,5) by simp_all
  ultimately show ?case using r'(1,2) o
    by (intro exI [of _ "p # qs"] exI [of _ w'] conjI exI [of _ "c # cs"]) simp_all
qed

lemma inbox_batch_inbox:
  "list_all (\<lambda>t. task_owner_id t = ownerId \<and> task_status t = inbox) (inbox_batch ownerId rows)"
  by (auto simp: inbox_batch_def list_all_iff dest!: in_set_takeD)

lemma main_ok:
  assumes "faults w = []"
  shows "\<exists>u w'. main lower OWNER_ID w = (Inr u, w') \<and>
          (\<exists>cs. comments w' = comments w @ cs \<and>
             map comment_task_id cs = map task_id (inbox_batch OWNER_ID (tasks w)))"
proof -
  let ?roster = "roster_set lower Map.empty (active_agents OWNER_ID (agents w))"
  let ?j = "case ?roster (js ''jarvis'') of None \<Rightarrow> None | Some a \<Rightarrow> truthy (agent_id a)"
  have "list_all (\<lambda>t. task_status t = inbox) (inbox_batch OWNER_ID (tasks w))"
    using inbox_batch_inbox [of OWNER_ID "tasks w"] by (simp add: list_all_iff)
  from main_loop_ok [OF assms this, of lower OWNER_ID ?roster ?j "[]"]
  obtain qs w' cs where "main_loop lower OWNER_ID ?roster ?j (inbox_batch OWNER_ID (tasks w)) [] w = (Inr qs, w')"
    and "faults w' = []" "comments w' = comments w @ cs"
      "map comment_task_id cs = map task_id (inbox_batch OWNER_ID (tasks w))"
    by auto
  then show ?thesis
    using assms
    by (auto simp: main_def getAgentRoster_def Let_def run_ok return_io_def console_log_def bind_io_def)
qed

lemma run_ok_comments:
  assumes "faults w = []"
  shows "\<exists>cs. comments (run lower OWNER_ID w) = comments w @ cs \<and>
           map comment_task_id cs = map task_id (inbox_batch OWNER_ID (tasks w))"
proof -
  let ?w0 = "w\<lparr>stdout := [], stderr := [], exitCode := 0\<rparr>"
  have "faults ?w0 = []" using assms by simp
  from main_ok [OF this, of lower OWNER_ID] show ?thesis
    by (auto simp: run_def)
qed

lemma sorted_take_drop:
  assumes "sorted (map f xs)" "x \<in> set (take n xs)" "y \<in> set xs" "y \<notin> set (take n xs)"
  shows "f x \<le> f y"
proof -
  have "y \<in> set (drop n xs)"
    using assms(3,4) by (metis Un_iff append_take_drop_id set_append)
  moreover have "sorted (map f (take n xs) @ map f (drop n xs))"
    using assms(1) by (simp flip: map_append)
  ultimately show ?thesis
    using assms(2) by (auto simp: sorted_append)
qed

lemma inbox_batch_props:
  "length (inbox_batch ownerId rows) \<le> 20"
  "sorted (map task_created_at (inbox_batch ownerId rows))"
  "set (inbox_batch ownerId rows) \<subseteq> set rows"
proof -
  have "sorted (take 20 (map task_created_at (sort_key task_created_at
      (filter (\<lambda>t. task_owner_id t = ownerId \<and> task_status t = inbox) rows))))"
    by (rule sorted_wrt_take) simp
  then show "sorted (map task_created_at (inbox_batch ownerId rows))"
    by (simp add: inbox_batch_def take_map)
qed (auto simp: inbox_batch_def dest!: in_set_takeD)

lemma inbox_batch_oldest:
  assumes "t \<in> set rows" "task_owner_id t = ownerId" "task_status t = inbox"
    "t \<notin> set (inbox_batch ownerId rows)" "u \<in> set (inbox_batch ownerId rows)"
  shows "task_created_at u \<le> task_created_at t"
  using assms unfolding inbox_batch_def
  by (intro sorted_take_drop [where f = task_created_at and n = 20]) auto

lemma empty_batch_run:
  assumes "inbox_batch OWNER_ID (tasks w) = []"
  shows "tables (run lower OWNER_ID w) = tables w"
    and "exitCode (run lower OWNER_ID w) = 0 \<Longrightarrow>
      stdout (run lower OWNER_ID w) = [js ''Procesado: 0 tasks (no hab'' @ [0xED] @ js ''a tasks en inbox).'']"
  using assms
  by (auto simp: run_def main_def getAgentRoster_def Let_def select_agents_def select_inbox_tasks_def
      bind_store_call bind_return bind_assoc return_io_def console_log_def tables_def
      split: option.splits)

section \<open>Claims about the Triage Coordinator\<close>

lemma move_from_inbox_none:
  "\<not> list_ex (\<lambda>r. task_owner_id r = ownerId \<and> task_id r = taskId \<and> task_status r = inbox) rows
     \<Longrightarrow> move_from_inbox ownerId taskId s rows = rows"
  unfolding move_from_inbox_def by (induction rows) auto

text \<open>
  C5. When no store call fails, the loop body ends without an error and leaves the tasks
  table as the conditional update makes it: a row is rewritten to the target status exactly
  when its owner is the configured owner, its identity is the task's and its stored status
  is \<open>inbox\<close>; every other row is unchanged. When no row qualifies the table is unchanged,
  and still no error is raised. In both cases the last activity entry is the
  \<open>move_status\<close> entry with the payload from \<open>inbox\<close> to the target status.
\<close>

theorem conditional_status_write:
  "faults w = [] \<longrightarrow>
     \<not> isl (fst (main_loop_body lower OWNER_ID roster jarvisId task w))
   \<and> tasks (snd (main_loop_body lower OWNER_ID roster jarvisId task w)) =
       map (\<lambda>r. if task_owner_id r = OWNER_ID \<and> task_id r = task_id task \<and> task_status r = inbox
                then r\<lparr>task_status := (if needsNico task then needs_nico else triage)\<rparr> else r) (tasks w)
   \<and> (\<not> list_ex (\<lambda>r. task_owner_id r = OWNER_ID \<and> task_id r = task_id task \<and> task_status r = inbox) (tasks w)
        \<longrightarrow> tasks (snd (main_loop_body lower OWNER_ID roster jarvisId task w)) = tasks w)
   \<and> last (activity_log (snd (main_loop_body lower OWNER_ID roster jarvisId task w))) =
        \<lparr>activity_owner_id = OWNER_ID, activity_actor_type = js ''agent'',
         activity_actor_agent_id = jarvisId, activity_action = js ''move_status'',
         activity_entity_type = js ''task'', activity_entity_id = task_id task,
         activity_data = FromTo inbox (if needsNico task then needs_nico else triage)\<rparr>"
proof
  assume f: "faults w = []"
  let ?b = "main_loop_body lower OWNER_ID roster jarvisId task w"
  let ?s = "if needsNico task then needs_nico else triage"
  have 1: "\<not> isl (fst ?b)"
    by (simp add: body_ok [OF f])
  have 2: "tasks (snd ?b) = move_from_inbox OWNER_ID (task_id task) ?s (tasks w)"
    by (simp add: body_ok [OF f])
  have 3: "tasks (snd ?b) = tasks w"
    if "\<not> list_ex (\<lambda>r. task_owner_id r = OWNER_ID \<and> task_id r = task_id task \<and> task_status r = inbox) (tasks w)"
    using that 2 by (simp add: move_from_inbox_none)
  have 4: "last (activity_log (snd ?b)) =
        \<lparr>activity_owner_id = OWNER_ID, activity_actor_type = js ''agent'',
         activity_actor_agent_id = jarvisId, activity_action = js ''move_status'',
         activity_entity_type = js ''task'', activity_entity_id = task_id task,
         activity_data = FromTo inbox ?s\<rparr>"
    by (simp add: body_ok [OF f])
  from 1 2 3 4 show "\<not> isl (fst ?b)
   \<and> tasks (snd ?b) =
       map (\<lambda>r. if task_owner_id r = OWNER_ID \<and> task_id r = task_id task \<and> task_status r = inbox
                then r\<lparr>task_status := ?s\<rparr> else r) (tasks w)
   \<and> (\<not> list_ex (\<lambda>r. task_owner_id r = OWNER_ID \<and> task_id r = task_id task \<and> task_status r = inbox) (tasks w)
        \<longrightarrow> tasks (snd ?b) = tasks w)
   \<and> last (activity_log (snd ?b)) =
        \<lparr>activity_owner_id = OWNER_ID, activity_actor_type = js ''agent'',
         activity_actor_agent_id = jarvisId, activity_action = js ''move_status'',
         activity_entity_type = js ''task'', activity_entity_id = task_id task,
         activity_data = FromTo inbox ?s\<rparr>"
    unfolding move_from_inbox_def by blast
qed

theorem conditional_status_write_witness:
  "faults worldS = []
   \<and> \<not> list_ex (\<lambda>r. task_owner_id r = owner0 \<and> task_id r = task_id taskA \<and> task_status r = inbox) (tasks worldS)
   \<and> \<not> isl (fst (main_loop_body lower_latin1 owner0 Map.empty None taskA worldS))
   \<and> tasks (snd (main_loop_body lower_latin1 owner0 Map.empty None taskA worldS)) = tasks worldS
   \<and> activity_action (last (activity_log (snd (main_loop_body lower_latin1 owner0 Map.empty None taskA worldS))))
       = js ''move_status''"
proof -
  have f: "faults worldS = []" by (simp add: worldS_def)
  have z: "\<not> list_ex (\<lambda>r. task_owner_id r = owner0 \<and> task_id r = task_id taskA \<and> task_status r = inbox) (tasks worldS)"
    by (simp add: worldS_def taskA_moved_def)
  from conditional_status_write [where w = worldS and lower = lower_latin1 and OWNER_ID = owner0
        and roster = Map.empty and jarvisId = None and task = taskA] f z
  have "\<not> isl (fst (main_loop_body lower_latin1 owner0 Map.empty None taskA worldS))"
    and "tasks (snd (main_loop_body lower_latin1 owner0 Map.empty None taskA worldS)) = tasks worldS"
    and "last (activity_log (snd (main_loop_body lower_latin1 owner0 Map.empty None taskA worldS))) =
        \<lparr>activity_owner_id = owner0, activity_actor_type = js ''agent'',
         activity_actor_agent_id = None, activity_action = js ''move_status'',
         activity_entity_type = js ''task'', activity_entity_id = task_id taskA,
         activity_data = FromTo inbox (if needsNico taskA then needs_nico else triage)\<rparr>"
    by blast+
  with f z show ?thesis by simp
qed

text \<open>
  C6. The loop body either leaves the tasks table alone or applies the one conditional
  update from \<open>inbox\<close> to the target status, which is \<open>needs_nico\<close> (the status the
  specification calls needs-clarification) when \<open>needsNico\<close> holds of the task and
  \<open>triage\<close> otherwise; the outcome it returns carries that status. Over a whole run,
  every row of the tasks table is either unchanged or was in \<open>inbox\<close> and is now in
  \<open>triage\<close> or \<open>needs_nico\<close>, with nothing else changed.
\<close>

theorem target_status_one_shot:
  "(tasks (snd (main_loop_body lower OWNER_ID roster jarvisId task w)) = tasks w
     \<or> tasks (snd (main_loop_body lower OWNER_ID roster jarvisId task w)) =
         move_from_inbox OWNER_ID (task_id task) (if needsNico task then needs_nico else triage) (tasks w))
   \<and> (\<not> isl (fst (main_loop_body lower OWNER_ID roster jarvisId task w)) \<longrightarrow>
        processed_status (projr (fst (main_loop_body lower OWNER_ID roster jarvisId task w))) =
          (if needsNico task then needs_nico else triage))
   \<and> list_all2 status_step (tasks w) (tasks (run lower OWNER_ID w))"
proof -
  let ?b = "main_loop_body lower OWNER_ID roster jarvisId task w"
  let ?s = "if needsNico task then needs_nico else triage"
  have 1: "tasks (snd ?b) = tasks w \<or> tasks (snd ?b) = move_from_inbox OWNER_ID (task_id task) ?s (tasks w)"
    using body_moves_once [of OWNER_ID task lower roster jarvisId]
    by (simp add: preserves_def moves_once_def)
  have 2: "processed_status (projr (fst ?b)) = ?s" if "\<not> isl (fst ?b)"
  proof -
    from that obtain p where p: "fst ?b = Inr p" by (cases "fst ?b") auto
    with body_returns [of task lower OWNER_ID roster jarvisId] have "processed_status p = ?s"
      unfolding returns_def by blast
    with p show ?thesis by simp
  qed
  have 3: "list_all2 status_step (tasks w) (tasks (run lower OWNER_ID w))"
    using run_related [OF stable_statuses_advance body_statuses_advance, where w = w and lower = lower and OWNER_ID = OWNER_ID]
    by (simp add: statuses_advance_def)
  from 1 2 3 show ?thesis by blast
qed

theorem target_status_one_shot_witness:
  "\<not> isl (fst (main_loop_body lower_latin1 owner0 Map.empty None taskB worldB))
   \<and> needsNico taskB
   \<and> processed_status (projr (fst (main_loop_body lower_latin1 owner0 Map.empty None taskB worldB))) = needs_nico
   \<and> list_all2 status_step (tasks worldB) (tasks (run lower_latin1 owner0 worldB))"
proof -
  have a: "\<not> isl (fst (main_loop_body lower_latin1 owner0 Map.empty None taskB worldB))"
    by code_simp
  have b: "needsNico taskB" by code_simp
  show ?thesis
    using a b target_status_one_shot [where w = worldB and lower = lower_latin1 and OWNER_ID = owner0
        and roster = Map.empty and jarvisId = None and task = taskB]
    by simp
qed

lemma roster_set_None:
  "roster_set lower m data k = None \<longleftrightarrow>
     m k = None \<and> \<not> list_ex (\<lambda>a. lower (or_empty (agent_name a)) = k) data"
  by (induction data arbitrary: m) auto

text \<open>
  C7. The assignee of a step is looked up under the lower-cased bucket name: two bucket
  names that agree after lower-casing resolve alike; the roster has an entry exactly when an
  active agent's lower-cased name is the key; without an entry the result is \<open>jarvisId\<close>,
  which is null when the default agent is absent too; with an entry whose identity is not
  empty it is that identity. \<open>pickId\<close> has no failing branch, a null bucket is looked
  up as the empty name. The roster is built from the active agents of the owner.
\<close>

theorem pickId_resolution:
  "(lower b1 = lower b2 \<longrightarrow>
      pickId lower roster jarvisId (Some b1) = pickId lower roster jarvisId (Some b2))
   \<and> (roster (lower b) = None \<longrightarrow>
        pickId lower roster jarvisId (Some b) = jarvisId \<and> pickId lower roster None (Some b) = None)
   \<and> (roster (lower b) = Some a \<and> agent_id a \<noteq> [] \<longrightarrow>
        pickId lower roster jarvisId (Some b) = Some (agent_id a))
   \<and> pickId lower roster jarvisId None = pickId lower roster jarvisId (Some [])
   \<and> (roster_set lower Map.empty data (lower b) = None \<longleftrightarrow>
        \<not> list_ex (\<lambda>a. lower (or_empty (agent_name a)) = lower b) data)
   \<and> (faults w = [] \<longrightarrow> fst (getAgentRoster lower OWNER_ID w) =
        Inr (roster_set lower Map.empty
          (filter (\<lambda>a. agent_owner_id a = OWNER_ID \<and> agent_is_active a) (agents w))))"
  by (simp add: pickId_def Let_def or_empty_def truthy_def roster_set_None getAgentRoster_def
      select_agents_def active_agents_def bind_store_call_ok return_io_def)

theorem pickId_resolution_witness:
  "lower_latin1 (js ''DEV'') = lower_latin1 (js ''Dev'')
   \<and> pickId lower_latin1 (roster_set lower_latin1 Map.empty [agentDev]) None (Some (js ''DEV''))
       = Some (js ''agent-dev'')
   \<and> roster_set lower_latin1 Map.empty [agentDev] (lower_latin1 (js ''Ops'')) = None
   \<and> pickId lower_latin1 (roster_set lower_latin1 Map.empty [agentDev]) None (Some (js ''Ops'')) = None
   \<and> faults worldA = []
   \<and> fst (getAgentRoster lower_latin1 owner0 worldA) = Inr Map.empty"
proof -
  have f: "faults worldA = []" "agents worldA = []" by (simp_all add: worldA_def)
  let ?r = "roster_set lower_latin1 Map.empty [agentDev]"
  have a: "lower_latin1 (js ''DEV'') = lower_latin1 (js ''Dev'')" by code_simp
  have b: "?r (lower_latin1 (js ''Dev'')) = Some agentDev"
    by (simp add: agentDev_def or_empty_def)
  have c: "agent_id agentDev \<noteq> []" by (simp add: agentDev_def js_def)
  have d: "?r (lower_latin1 (js ''Ops'')) = None" by code_simp
  have e: "agent_id agentDev = js ''agent-dev''" by (simp add: agentDev_def)
  from pickId_resolution [where lower = lower_latin1 and roster = ?r and jarvisId = None
      and ?b1.0 = "js ''DEV''" and ?b2.0 = "js ''Dev''" and b = "js ''Dev''" and a = agentDev] a b c
  have "pickId lower_latin1 ?r None (Some (js ''DEV'')) = Some (agent_id agentDev)" by simp
  moreover from pickId_resolution [where lower = lower_latin1 and roster = ?r and jarvisId = None
      and b = "js ''Ops''"] d
  have "pickId lower_latin1 ?r None (Some (js ''Ops'')) = None" by simp
  moreover from pickId_resolution [where lower = lower_latin1 and w = worldA and OWNER_ID = owner0] f
  have "fst (getAgentRoster lower_latin1 owner0 worldA) = Inr Map.empty" by simp
  ultimately show ?thesis using a d e f by simp
qed

text \<open>
  C8. The batch of a run holds at most 20 tasks, all of the configured owner and in
  \<open>inbox\<close>, in ascending order of creation time; a matching task left out is no older than
  any task of the batch. A successful fetch returns this batch, and a run without store
  failures writes one comment for each task of the batch, in the order of the batch.
\<close>

theorem inbox_batch_fifo:
  "length (inbox_batch OWNER_ID rows) \<le> 20
   \<and> list_all (\<lambda>t. task_owner_id t = OWNER_ID \<and> task_status t = inbox) (inbox_batch OWNER_ID rows)
   \<and> sorted (map task_created_at (inbox_batch OWNER_ID rows))
   \<and> set (inbox_batch OWNER_ID rows) \<subseteq> set rows
   \<and> (t \<in> set rows \<and> task_owner_id t = OWNER_ID \<and> task_status t = inbox
        \<and> t \<notin> set (inbox_batch OWNER_ID rows) \<and> u \<in> set (inbox_batch OWNER_ID rows)
        \<longrightarrow> task_created_at u \<le> task_created_at t)
   \<and> (faults w = [] \<longrightarrow> fst (select_inbox_tasks OWNER_ID w) = Inr (inbox_batch OWNER_ID (tasks w)))
   \<and> (faults w = [] \<longrightarrow> (\<exists>cs. comments (run lower OWNER_ID w) = comments w @ cs
        \<and> map comment_task_id cs = map task_id (inbox_batch OWNER_ID (tasks w))))"
proof -
  have "faults w = [] \<longrightarrow> fst (select_inbox_tasks OWNER_ID w) = Inr (inbox_batch OWNER_ID (tasks w))"
    by (simp add: select_inbox_tasks_def store_call_ok)
  then show ?thesis
    using inbox_batch_props [of OWNER_ID rows] inbox_batch_inbox [of OWNER_ID rows]
      inbox_batch_oldest [of t rows OWNER_ID u] run_ok_comments [of w lower OWNER_ID]
    by blast
qed

theorem inbox_batch_fifo_witness:
  "hd queue21 \<in> set queue21 \<and> task_owner_id (hd queue21) = owner0 \<and> task_status (hd queue21) = inbox
   \<and> hd queue21 \<notin> set (inbox_batch owner0 queue21) \<and> last queue21 \<in> set (inbox_batch owner0 queue21)
   \<and> task_created_at (last queue21) \<le> task_created_at (hd queue21)
   \<and> length (inbox_batch owner0 queue21) = 20
   \<and> faults worldB = []
   \<and> map comment_task_id (comments (run lower_latin1 owner0 worldB)) = [js ''a1'', js ''b2'']"
proof -
  have a: "hd queue21 \<in> set queue21" "task_owner_id (hd queue21) = owner0" "task_status (hd queue21) = inbox"
    "hd queue21 \<notin> set (inbox_batch owner0 queue21)" "last queue21 \<in> set (inbox_batch owner0 queue21)"
    "length (inbox_batch owner0 queue21) = 20"
    by code_simp+
  have f: "faults worldB = []" by (simp add: worldB_def)
  have b: "map task_id (inbox_batch owner0 (tasks worldB)) = [js ''a1'', js ''b2'']" by code_simp
  have c: "comments worldB = []" by (simp add: worldB_def)
  from inbox_batch_fifo [where OWNER_ID = owner0 and rows = queue21 and t = "hd queue21"
      and u = "last queue21" and w = worldB and lower = lower_latin1] a f
  have "task_created_at (last queue21) \<le> task_created_at (hd queue21)"
    and "\<exists>cs. comments (run lower_latin1 owner0 worldB) = comments worldB @ cs
        \<and> map comment_task_id cs = map task_id (inbox_batch owner0 (tasks worldB))"
    by blast+
  with a f b c show ?thesis by auto
qed

lemma js_nonempty: "s \<noteq> [] \<Longrightarrow> js s \<noteq> []"
  by (simp add: js_def)

lemma pushed_steps_dod:
  "p \<in> set (pushed_steps lower task) \<Longrightarrow> step_definition_of_done p \<noteq> []"
  by (auto simp: pushed_steps_def Let_def js_nonempty split: if_splits)

lemma buildSubtasks_dod:
  "k < length (buildSubtasks lower task) \<Longrightarrow> step_definition_of_done (buildSubtasks lower task ! k) \<noteq> []"
  unfolding buildSubtasks_def
  by (rule pushed_steps_dod [of _ lower task]) (auto dest!: in_set_takeD intro: nth_mem)

lemma plan_rows_nth:
  "k < length plan \<Longrightarrow> plan_rows lower OWNER_ID roster jarvisId task plan ! k =
     \<lparr>subtask_owner_id = OWNER_ID, subtask_task_id = task_id task,
      subtask_title = step_title (plan ! k), subtask_status = in_progress,
      subtask_assignee_agent_id = pickId lower roster jarvisId (Some (step_bucket (plan ! k))),
      subtask_definition_of_done = step_definition_of_done (plan ! k),
      subtask_sort_order = k,
      subtask_metadata_triage_bucket = step_bucket (plan ! k)\<rparr>"
  by (simp add: plan_rows_def nth_enumerate_eq)

text \<open>
  C10. The subtask rows a run adds are batches, each the rows of the plan of one task; the
  row at position \<open>k\<close> of a batch has the status \<open>in_progress\<close>, the sort order \<open>k\<close>,
  the bucket of step \<open>k\<close> of the plan as \<open>metadata.triage_bucket\<close>, and a definition of
  done that is not empty.
\<close>

theorem inserted_rows_shape:
  "adds_batches lower OWNER_ID w (run lower OWNER_ID w)
   \<and> length (plan_rows lower OWNER_ID roster jarvisId task (buildSubtasks lower task))
       = length (buildSubtasks lower task)
   \<and> (k < length (buildSubtasks lower task) \<longrightarrow>
        subtask_status (plan_rows lower OWNER_ID roster jarvisId task (buildSubtasks lower task) ! k) = in_progress
      \<and> subtask_sort_order (plan_rows lower OWNER_ID roster jarvisId task (buildSubtasks lower task) ! k) = k
      \<and> subtask_metadata_triage_bucket (plan_rows lower OWNER_ID roster jarvisId task (buildSubtasks lower task) ! k)
          = step_bucket (buildSubtasks lower task ! k)
      \<and> subtask_definition_of_done (plan_rows lower OWNER_ID roster jarvisId task (buildSubtasks lower task) ! k) \<noteq> [])"
proof -
  have "adds_batches lower OWNER_ID w (run lower OWNER_ID w)"
    by (rule run_related [OF stable_adds_batches body_adds_batches])
  then show ?thesis
    by (simp add: plan_rows_nth buildSubtasks_dod)
qed

theorem inserted_rows_shape_witness:
  "(1::nat) < length (buildSubtasks lower_latin1 taskA)
   \<and> subtask_sort_order (plan_rows lower_latin1 owner0 Map.empty None taskA (buildSubtasks lower_latin1 taskA) ! 1) = 1
   \<and> subtask_status (plan_rows lower_latin1 owner0 Map.empty None taskA (buildSubtasks lower_latin1 taskA) ! 1) = in_progress
   \<and> subtask_definition_of_done (plan_rows lower_latin1 owner0 Map.empty None taskA (buildSubtasks lower_latin1 taskA) ! 1) \<noteq> []
   \<and> subtask_metadata_triage_bucket (plan_rows lower_latin1 owner0 Map.empty None taskA (buildSubtasks lower_latin1 taskA) ! 1)
       = js ''Dev''"
proof -
  have a: "(1::nat) < length (buildSubtasks lower_latin1 taskA)" by code_simp
  have b: "step_bucket (buildSubtasks lower_latin1 taskA ! 1) = js ''Dev''" by code_simp
  show ?thesis
    using a b inserted_rows_shape [where lower = lower_latin1 and OWNER_ID = owner0 and roster = Map.empty
        and jarvisId = None and task = taskA and k = 1]
    by simp
qed

lemma digest_worldA: "digest (run lower_latin1 owner0 worldA) = (3, 1, 3, [triage], 0, [])"
  by code_simp


lemma inbox_batch_no_inbox: "inbox \<notin> set (map task_status rows) \<Longrightarrow> inbox_batch ownerId rows = []"
proof -
  assume "inbox \<notin> set (map task_status rows)"
  then have "filter (\<lambda>t. task_owner_id t = ownerId \<and> task_status t = inbox) rows = []"
    by (auto simp: filter_empty_conv image_iff)
  then show ?thesis by (simp add: inbox_batch_def)
qed









text \<open>
  C4, as stated: the summary comment and the activity entries are appended on each run.
  That fails for the second of two runs over the same backlog: the first run moves the task
  out of \<open>inbox\<close>, so the second run does not fetch it and appends nothing.
\<close>

theorem second_run_appends_nothing_counterexample:
  "length (subtasks (run lower_latin1 owner0 worldA)) = 3
   \<and> length (comments (run lower_latin1 owner0 worldA)) = 1
   \<and> subtasks (run lower_latin1 owner0 (run lower_latin1 owner0 worldA)) = subtasks (run lower_latin1 owner0 worldA)
   \<and> comments (run lower_latin1 owner0 (run lower_latin1 owner0 worldA)) = comments (run lower_latin1 owner0 worldA)
   \<and> activity_log (run lower_latin1 owner0 (run lower_latin1 owner0 worldA)) = activity_log (run lower_latin1 owner0 worldA)"
proof -
  have a: "length (subtasks (run lower_latin1 owner0 worldA)) = 3"
    "length (comments (run lower_latin1 owner0 worldA)) = 1"
    "map task_status (tasks (run lower_latin1 owner0 worldA)) = [triage]"
    using digest_worldA by (simp_all add: digest_def)
  from a(3) have b: "inbox_batch owner0 (tasks (run lower_latin1 owner0 worldA)) = []"
    by (intro inbox_batch_no_inbox) simp
  from empty_batch_run(1) [OF b, of lower_latin1] a(1,2) show ?thesis
    by (simp add: tables_def)
qed

text \<open>
  C4, amended. A run never adds subtasks to a task that has any: its subtask rows after the
  run are its rows before the run, so a second run creates no second batch. When the loop
  processes a task that has subtasks (and no store call fails), it leaves the subtasks alone
  and still appends the summary comment and the \<open>add_comment\<close> and \<open>move_status\<close>
  activity entries. A run appends these only for the tasks it fetches: when no task of the
  owner is in \<open>inbox\<close>, it leaves the subtasks, comments and activity log as they are.
\<close>

theorem rerun_keeps_subtasks:
  "(subtasks_of OWNER_ID i w \<noteq> [] \<longrightarrow>
      subtasks_of OWNER_ID i (run lower OWNER_ID w) = subtasks_of OWNER_ID i w)
   \<and> (faults w = [] \<and> existing_subtasks OWNER_ID (task_id task) (subtasks w) \<noteq> [] \<longrightarrow>
        subtasks (snd (main_loop_body lower OWNER_ID roster jarvisId task w)) = subtasks w
      \<and> (\<exists>c. comments (snd (main_loop_body lower OWNER_ID roster jarvisId task w)) = comments w @ [c]
             \<and> comment_task_id c = task_id task)
      \<and> map activity_action (drop (length (activity_log w))
            (activity_log (snd (main_loop_body lower OWNER_ID roster jarvisId task w))))
          = [js ''add_comment'', js ''move_status''])
   \<and> (inbox_batch OWNER_ID (tasks w) = [] \<longrightarrow>
        subtasks (run lower OWNER_ID w) = subtasks w \<and> comments (run lower OWNER_ID w) = comments w
      \<and> activity_log (run lower OWNER_ID w) = activity_log w)"
proof -
  have 1: "subtasks_of OWNER_ID i (run lower OWNER_ID w) = subtasks_of OWNER_ID i w"
    if "subtasks_of OWNER_ID i w \<noteq> []"
    using run_keeps_subtasks [of OWNER_ID i w lower] that by (simp add: keeps_subtasks_def)
  have 2: "subtasks (snd (main_loop_body lower OWNER_ID roster jarvisId task w)) = subtasks w
      \<and> (\<exists>c. comments (snd (main_loop_body lower OWNER_ID roster jarvisId task w)) = comments w @ [c]
             \<and> comment_task_id c = task_id task)
      \<and> map activity_action (drop (length (activity_log w))
            (activity_log (snd (main_loop_body lower OWNER_ID roster jarvisId task w))))
          = [js ''add_comment'', js ''move_status'']"
    if "faults w = []" "existing_subtasks OWNER_ID (task_id task) (subtasks w) \<noteq> []"
    using that by (simp add: body_ok)
  have 3: "subtasks (run lower OWNER_ID w) = subtasks w \<and> comments (run lower OWNER_ID w) = comments w
      \<and> activity_log (run lower OWNER_ID w) = activity_log w"
    if "inbox_batch OWNER_ID (tasks w) = []"
    using empty_batch_run(1) [OF that, of lower] by (simp add: tables_def)
  from 1 2 3 show ?thesis by blast
qed

theorem rerun_keeps_subtasks_witness:
  "subtasks_of owner0 (js ''a1'') worldR \<noteq> []
   \<and> subtasks_of owner0 (js ''a1'') (run lower_latin1 owner0 worldR) = subtasks_of owner0 (js ''a1'') worldR
   \<and> faults worldR = [] \<and> existing_subtasks owner0 (task_id taskA) (subtasks worldR) \<noteq> []
   \<and> subtasks (snd (main_loop_body lower_latin1 owner0 Map.empty None taskA worldR)) = subtasks worldR
   \<and> length (comments (snd (main_loop_body lower_latin1 owner0 Map.empty None taskA worldR))) = 1
   \<and> inbox_batch owner0 (tasks worldS) = []
   \<and> comments (run lower_latin1 owner0 worldS) = comments worldS"
proof -
  have a: "subtasks_of owner0 (js ''a1'') worldR \<noteq> []" "faults worldR = []"
    "existing_subtasks owner0 (task_id taskA) (subtasks worldR) \<noteq> []" "comments worldR = []"
    by (simp_all add: worldR_def subtasks_of_def existing_subtasks_def owner0_def taskA_def)
  have d: "inbox_batch owner0 (tasks worldS) = []"
    by (simp add: worldS_def taskA_moved_def inbox_batch_def)
  from rerun_keeps_subtasks [where w = worldR and lower = lower_latin1 and OWNER_ID = owner0
      and i = "js ''a1''" and roster = Map.empty and jarvisId = None and task = taskA] a
  have b: "subtasks_of owner0 (js ''a1'') (run lower_latin1 owner0 worldR) = subtasks_of owner0 (js ''a1'') worldR"
    "subtasks (snd (main_loop_body lower_latin1 owner0 Map.empty None taskA worldR)) = subtasks worldR"
    "\<exists>c. comments (snd (main_loop_body lower_latin1 owner0 Map.empty None taskA worldR)) = comments worldR @ [c]
             \<and> comment_task_id c = task_id taskA"
    by blast+
  from rerun_keeps_subtasks [where w = worldS and lower = lower_latin1 and OWNER_ID = owner0] d
  have c: "comments (run lower_latin1 owner0 worldS) = comments worldS" by blast
  from a b c d show ?thesis by auto
qed

end
